theory Spec2Isabelle
  imports Complex_Main "HOL-Library.Multiset" "HOL-Library.Char_ord" "HOL-Library.List_Lexorder"
begin

section \<open>Numbers of the data frame\<close>

text \<open>
  The columns of the data frame and the floats of Python hold binary64 numbers. A finite
  number is \<open>Fin a\<close>, with \<open>a\<close> the real number it denotes; the special values are
  the two infinities and not-a-number, which the program reaches through missing CSV cells
  and through division by zero. Every arithmetic operation rounds its exact result to the
  nearest binary64 number (\<open>b64\<close>), a tie going to the even significand, and gives an
  infinity when the rounded result leaves the range. Division follows numpy and pandas,
  which return a special value where plain Python would raise; the divisions the program
  performs on Python floats have the divisors 4, 100 and a positive price. The sign of
  zero is not modelled.
\<close>

datatype fnum = Fin real | PInf | NInf | NaN

datatype py_error = ValueError | OverflowError | TypeError | StreamlitAPIException

text \<open>Rounding to the nearest integer, a tie going to the even neighbour.\<close>

definition round_half_even :: "real \<Rightarrow> int" where
  "round_half_even x =
     (let f = \<lfloor>x\<rfloor>; d = x - of_int f
      in if d < 1 / 2 then f else if 1 / 2 < d then f + 1 else if even f then f else f + 1)"

text \<open>
  The binary exponent of a positive number \<open>a\<close>: the \<open>e\<close> with
  \<open>2 ^ e \<le> a < 2 ^ (e + 1)\<close>, found by halving or doubling, and kept between
  \<open>-1022\<close> (below it the numbers are subnormal) and \<open>1024\<close> (where they overflow).
\<close>

fun exp_up :: "nat \<Rightarrow> real \<Rightarrow> int" where
  "exp_up 0 a = 0"
| "exp_up (Suc k) a = (if 2 \<le> a then exp_up k (a / 2) + 1 else 0)"

fun exp_down :: "nat \<Rightarrow> real \<Rightarrow> int" where
  "exp_down 0 a = 0"
| "exp_down (Suc k) a = (if a < 1 then exp_down k (a * 2) - 1 else 0)"

definition b64_exponent :: "real \<Rightarrow> int" where
  "b64_exponent a = (if 1 \<le> a then exp_up 1024 a else exp_down 1022 a)"

text \<open>
  The binary64 number nearest to a real: the significand has 53 bits, so the spacing at
  exponent \<open>e\<close> is \<open>2 ^ (e - 52)\<close>.
\<close>

definition b64 :: "real \<Rightarrow> fnum" where
  "b64 x =
     (if x = 0 then Fin 0
      else
        let a = \<bar>x\<bar>;
            ulp = 2 powi (b64_exponent a - 52);
            r = of_int (round_half_even (a / ulp)) * ulp
        in if 2 powi 1024 \<le> r then (if 0 < x then PInf else NInf)
           else Fin (if 0 < x then r else - r))"

definition inf_of_sign :: "real \<Rightarrow> fnum" where
  "inf_of_sign s = (if 0 < s then PInf else if s < 0 then NInf else NaN)"

fun fsign :: "fnum \<Rightarrow> real" where
  "fsign (Fin a) = sgn a"
| "fsign PInf = 1"
| "fsign NInf = -1"
| "fsign NaN = 0"

fun fmul :: "fnum \<Rightarrow> fnum \<Rightarrow> fnum" where
  "fmul NaN y = NaN"
| "fmul x NaN = NaN"
| "fmul (Fin a) (Fin b) = b64 (a * b)"
| "fmul x y = inf_of_sign (fsign x * fsign y)"

fun fadd :: "fnum \<Rightarrow> fnum \<Rightarrow> fnum" where
  "fadd NaN y = NaN"
| "fadd x NaN = NaN"
| "fadd (Fin a) (Fin b) = b64 (a + b)"
| "fadd (Fin a) y = y"
| "fadd x (Fin b) = x"
| "fadd PInf PInf = PInf"
| "fadd NInf NInf = NInf"
| "fadd PInf NInf = NaN"
| "fadd NInf PInf = NaN"

fun fdiv :: "fnum \<Rightarrow> fnum \<Rightarrow> fnum" where
  "fdiv NaN y = NaN"
| "fdiv x NaN = NaN"
| "fdiv (Fin a) (Fin b) = (if b = 0 then inf_of_sign a else b64 (a / b))"
| "fdiv (Fin a) y = Fin 0"
| "fdiv x (Fin b) = inf_of_sign (fsign x * (if b < 0 then -1 else 1))"
| "fdiv x y = NaN"

text \<open>\<open>x > y\<close> on binary64: false as soon as one side is not-a-number.\<close>

fun fgt :: "fnum \<Rightarrow> fnum \<Rightarrow> bool" where
  "fgt NaN y = False"
| "fgt x NaN = False"
| "fgt (Fin a) (Fin b) = (b < a)"
| "fgt PInf y = (y \<noteq> PInf)"
| "fgt x NInf = (x \<noteq> NInf)"
| "fgt x y = False"

text \<open>\<open>x >= y\<close> on binary64.\<close>

fun fge :: "fnum \<Rightarrow> fnum \<Rightarrow> bool" where
  "fge NaN y = False"
| "fge x NaN = False"
| "fge (Fin a) (Fin b) = (b \<le> a)"
| "fge PInf y = True"
| "fge x NInf = True"
| "fge x y = False"

text \<open>
  \<open>round(x, n)\<close> on a Python float: the exact value of \<open>x\<close> is rounded to \<open>n\<close>
  decimals, a tie going to the even digit, and the binary64 number nearest to that decimal
  is returned.
\<close>

fun py_round :: "fnum \<Rightarrow> nat \<Rightarrow> fnum" where
  "py_round (Fin a) n = b64 (of_int (round_half_even (a * 10 ^ n)) / 10 ^ n)"
| "py_round x n = x"

text \<open>
  \<open>round(x, n)\<close> on a \<open>numpy.float64\<close>, whose \<open>__round__\<close> is numpy's
  \<open>round\<close>: multiply by \<open>10 ^ n\<close>, round to the nearest integer (\<open>rint\<close>),
  divide by \<open>10 ^ n\<close>, each step in binary64.
\<close>

fun rint :: "fnum \<Rightarrow> fnum" where
  "rint (Fin a) = b64 (of_int (round_half_even a))"
| "rint x = x"

definition np_round :: "fnum \<Rightarrow> nat \<Rightarrow> fnum" where
  "np_round x n = fdiv (rint (fmul x (Fin (10 ^ n)))) (Fin (10 ^ n))"

text \<open>
  \<open>Series.sum()\<close> and the sum of a group: cells that are not-a-number are skipped
  (\<open>skipna=True\<close>), the others are added up from zero in row order, each addition
  rounded. How the libraries group the additions of a longer column is their own matter
  (numpy adds eight cells or more in blocks, the grouped sum of pandas carries a
  compensation term); the model adds in row order throughout, and on the columns that are
  evaluated in this theory the libraries give the same numbers.
\<close>

definition is_nan :: "fnum \<Rightarrow> bool" where
  "is_nan x = (x = NaN)"

definition series_sum :: "fnum list \<Rightarrow> fnum" where
  "series_sum xs = fold fadd (filter (\<lambda>x. \<not> is_nan x) xs) (Fin 0)"

text \<open>\<open>Series.mean()\<close>: the sum of the cells that are numbers over their count.\<close>

definition series_mean :: "fnum list \<Rightarrow> fnum" where
  "series_mean xs =
     fdiv (series_sum xs) (Fin (real (length (filter (\<lambda>x. \<not> is_nan x) xs))))"

text \<open>\<open>Series.dot\<close>: numpy's dot product, which skips nothing.\<close>

definition series_dot :: "fnum list \<Rightarrow> fnum list \<Rightarrow> fnum" where
  "series_dot xs ys = fold fadd (map (\<lambda>(x, y). fmul x y) (zip xs ys)) (Fin 0)"

section \<open>Calendar dates\<close>

text \<open>
  \<open>datetime(year, month, day)\<close> at midnight, the only datetimes the program builds.
  The constructor raises \<open>ValueError\<close> outside the years 1 to 9999 and outside the
  month's days.
\<close>

record date =
  year :: int
  month :: int
  day :: int

definition is_leap :: "int \<Rightarrow> bool" where
  "is_leap y = (y mod 4 = 0 \<and> (y mod 100 \<noteq> 0 \<or> y mod 400 = 0))"

definition days_in_month :: "int \<Rightarrow> int \<Rightarrow> int" where
  "days_in_month y m =
     (if m = 2 then (if is_leap y then 29 else 28)
      else if m = 4 \<or> m = 6 \<or> m = 9 \<or> m = 11 then 30 else 31)"

definition valid_date :: "date \<Rightarrow> bool" where
  "valid_date d =
     (1 \<le> year d \<and> year d \<le> 9999 \<and> 1 \<le> month d \<and> month d \<le> 12 \<and>
      1 \<le> day d \<and> day d \<le> days_in_month (year d) (month d))"

definition mk_datetime :: "int \<Rightarrow> int \<Rightarrow> int \<Rightarrow> py_error + date" where
  "mk_datetime y m d =
     (let r = \<lparr>year = y, month = m, day = d\<rparr>
      in if valid_date r then Inr r else Inl ValueError)"

text \<open>The comparison \<open>a <= b\<close> of two datetimes at midnight: by year, month, day.\<close>

definition date_le :: "date \<Rightarrow> date \<Rightarrow> bool" where
  "date_le a b =
     (year a < year b \<or>
      (year a = year b \<and> (month a < month b \<or> (month a = month b \<and> day a \<le> day b))))"

definition next_day :: "date \<Rightarrow> date" where
  "next_day d =
     (if day d < days_in_month (year d) (month d) then d\<lparr>day := day d + 1\<rparr>
      else if month d < 12 then \<lparr>year = year d, month = month d + 1, day = 1\<rparr>
      else \<lparr>year = year d + 1, month = 1, day = 1\<rparr>)"

fun add_days :: "nat \<Rightarrow> date \<Rightarrow> date" where
  "add_days 0 d = d"
| "add_days (Suc n) d = add_days n (next_day d)"

text \<open>
  \<open>d + timedelta(days=n)\<close>: the date \<open>n\<close> days later, \<open>OverflowError\<close> past
  the year 9999.
\<close>

definition add_timedelta :: "date \<Rightarrow> nat \<Rightarrow> py_error + date" where
  "add_timedelta d n =
     (let r = add_days n d in if 9999 < year r then Inl OverflowError else Inr r)"

text \<open>\<open>datetime.strptime(m, "%b").month\<close> on the labels the schedule table uses.\<close>

definition month_of_label :: "string \<Rightarrow> int option" where
  "month_of_label m =
     map_of [(''Jan'', 1), (''Feb'', 2), (''Mar'', 3), (''Apr'', 4), (''May'', 5), (''Jun'', 6),
             (''Jul'', 7), (''Aug'', 8), (''Sep'', 9), (''Oct'', 10), (''Nov'', 11), (''Dec'', 12)] m"

section \<open>Holdings, quotes and fundamentals\<close>

text \<open>
  A row of the CSV: the \<open>Slice\<close>, \<open>Value\<close> and \<open>Owned quantity\<close> columns. A
  cell that \<open>pd.to_numeric(..., errors='coerce')\<close> could not parse is not-a-number.
\<close>

record holding =
  slice :: string
  cost_value :: fnum
  owned_quantity :: fnum

text \<open>
  \<open>df[df["Slice"] != "Total"]\<close>: the rows that are kept and the index label of each,
  which is its position in the CSV. The index is not reset before the fetch loop.
\<close>

definition drop_total :: "holding list \<Rightarrow> (nat \<times> holding) list" where
  "drop_total raw = filter (\<lambda>(i, r). slice r \<noteq> ''Total'') (enumerate 0 raw)"

text \<open>The row after the fetch loop: the \<open>price\<close> and \<open>yield\<close> columns are added.\<close>

record enriched = holding +
  price :: fnum
  yield :: fnum

text \<open>
  \<open>get_live_price\<close>. The argument is what the body of the \<open>try\<close> obtains for the
  ticker: \<open>None\<close> when anything in it raises (the request, the JSON, a missing key), else
  the \<open>regularMarketPrice\<close> and \<open>previousClose\<close> of the response.
\<close>

definition get_live_price :: "(fnum \<times> fnum) option \<Rightarrow> fnum \<times> fnum" where
  "get_live_price resp =
     (case resp of
        None \<Rightarrow> (Fin 0, Fin 0)
      | Some (p, previous) \<Rightarrow> (py_round p 4, py_round previous 4))"

text \<open>
  The yield part of \<open>get_analyst_and_yield\<close> (the recommendation and the price target
  are display columns). The argument is \<open>None\<close> when anything in the \<open>try\<close> raises,
  else the list the quote endpoint returned, each entry with its \<open>price\<close> and
  \<open>lastDiv\<close>.
\<close>

definition get_yield_pct :: "(fnum \<times> fnum) list option \<Rightarrow> fnum" where
  "get_yield_pct resp =
     (case resp of
        None \<Rightarrow> Fin 0
      | Some [] \<Rightarrow> py_round (fmul (Fin 0) (Fin 100)) 2
      | Some ((p, last_div) # rest) \<Rightarrow>
          (let d = fmul last_div (Fin 4);
               y = (if fgt p (Fin 0) then fdiv d p else Fin 0)
           in py_round (fmul y (Fin 100)) 2))"

text \<open>
  What the body of the fetch loop appends for one row. The two providers are parameters:
  what the quote endpoint answers for a listing symbol and what the fundamentals endpoint
  answers for a ticker.
\<close>

definition fetch_row ::
  "(string \<Rightarrow> (fnum \<times> fnum) option) \<Rightarrow> (string \<Rightarrow> (fnum \<times> fnum) list option) \<Rightarrow>
   holding \<Rightarrow> enriched" where
  "fetch_row quote_api fund_api row =
     (let tick = slice row @ ''.L'';
          lse_tick = slice row;
          (p, prev) = get_live_price (quote_api tick);
          yield_pct = get_yield_pct (fund_api lse_tick)
      in \<lparr>slice = slice row, cost_value = cost_value row, owned_quantity = owned_quantity row,
          price = p, yield = fdiv yield_pct (Fin 100)\<rparr>)"

text \<open>
  The fetch loop over the rows with their index labels, \<open>n\<close> being \<open>len(df)\<close>. After
  the fetch of a row it calls \<open>progress.progress((i+1)/len(df))\<close>, and the progress bar
  raises when its value is above 1, that is when the index label plus one exceeds the
  number of rows (the quotient of the two integers is rounded, which cannot bring it down
  to 1 for fewer than \<open>2 ^ 52\<close> rows). The exception ends the script: nothing is
  enriched.
\<close>

fun fetch_loop ::
  "(string \<Rightarrow> (fnum \<times> fnum) option) \<Rightarrow> (string \<Rightarrow> (fnum \<times> fnum) list option) \<Rightarrow>
   nat \<Rightarrow> (nat \<times> holding) list \<Rightarrow> py_error + enriched list" where
  "fetch_loop quote_api fund_api n [] = Inr []"
| "fetch_loop quote_api fund_api n ((i, row) # rest) =
     (let fetched = fetch_row quote_api fund_api row
      in if n < i + 1 then Inl StreamlitAPIException
         else (case fetch_loop quote_api fund_api n rest of
                 Inl e \<Rightarrow> Inl e
               | Inr out \<Rightarrow> Inr (fetched # out)))"

text \<open>The loop and the \<open>concat\<close> that joins the fetched columns to the rows.\<close>

definition fetch_all ::
  "(string \<Rightarrow> (fnum \<times> fnum) option) \<Rightarrow> (string \<Rightarrow> (fnum \<times> fnum) list option) \<Rightarrow>
   (nat \<times> holding) list \<Rightarrow> py_error + enriched list" where
  "fetch_all quote_api fund_api df = fetch_loop quote_api fund_api (length df) df"

section \<open>Valuation\<close>

definition market_value :: "enriched \<Rightarrow> fnum" where
  "market_value r = fmul (price r) (owned_quantity r)"

definition total_now :: "enriched list \<Rightarrow> fnum" where
  "total_now df = series_sum (map market_value df)"

text \<open>The \<open>Weight\<close> column: each market value over the sum of the column.\<close>

definition weight :: "enriched list \<Rightarrow> fnum list" where
  "weight df = map (\<lambda>r. fdiv (market_value r) (series_sum (map market_value df))) df"

text \<open>The number shown as estimated forward yield.\<close>

definition forward_yield :: "enriched list \<Rightarrow> fnum" where
  "forward_yield df = fdiv (series_dot (map market_value df) (map yield df)) (total_now df)"

text \<open>
  The value shown as expected dividends of the next twelve months. The expression inside
  the f-string is a column times a number, which is a column again; a format
  specification such as \<open>,.0f\<close> applied to a column raises \<open>TypeError\<close>, applied to
  a number it renders that number.
\<close>

datatype pyval = Scalar fnum | Series "fnum list"

datatype metric_text = Pounds fnum | Zero_pounds

definition format_pounds :: "pyval \<Rightarrow> py_error + metric_text" where
  "format_pounds v = (case v of Scalar x \<Rightarrow> Inr (Pounds x) | Series xs \<Rightarrow> Inl TypeError)"

definition expected_divs :: "enriched list \<Rightarrow> py_error + metric_text" where
  "expected_divs df =
     (if fgt (total_now df) (Fin 0)
      then format_pounds (Series (map (\<lambda>r. fmul (market_value r) (series_mean (map yield df))) df))
      else Inr Zero_pounds)"

section \<open>Dividend forecast\<close>

definition known_div_schedule :: "string \<Rightarrow> string list option" where
  "known_div_schedule =
     map_of [(''BP'', [''Mar'', ''Jun'', ''Sep'', ''Dec'']),
             (''AV'', [''May'', ''Oct'']),
             (''NG'', [''Jun'', ''Dec'']),
             (''MNG'', [''Apr'', ''Sep'']),
             (''LGEN'', [''Mar'', ''Jun'', ''Sep'', ''Nov'']),
             (''SHEL'', [''Mar'', ''Jun'', ''Sep'', ''Dec'']),
             (''RIO'', [''Mar'', ''Sep'']),
             (''HSBA'', [''Mar'', ''Jun'', ''Sep'', ''Dec'']),
             (''BATS'', [''Mar'', ''Jun'', ''Sep'', ''Dec'']),
             (''IMB'', [''Mar'', ''Sep'']),
             (''GLEN'', [''Jun'', ''Dec''])]"

record div_event =
  ev_date :: date
  ev_ticker :: string
  ev_amount :: fnum

text \<open>
  The reference date \<open>today\<close> is a parameter of the functions below; the program
  sets it to the constant \<open>today_2025\<close>. The two statements that choose the year of
  a payment month:
\<close>

definition resolve_year :: "date \<Rightarrow> int \<Rightarrow> int" where
  "resolve_year today month_num =
     (let y = (if month_num > month today then year today else year today + 1)
      in if month_num < month today then y + 1 else y)"

text \<open>
  The literal \<open>0.04\<close> is the binary64 number nearest to 4/100, and \<open>4/len(months)\<close>
  is the rounded quotient of two integers.
\<close>

definition last_annual :: "enriched \<Rightarrow> fnum" where
  "last_annual row = fmul (price row) (if fgt (yield row) (Fin 0) then yield row else b64 (4 / 100))"

definition quarterly :: "enriched \<Rightarrow> fnum" where
  "quarterly row = fdiv (last_annual row) (Fin 4)"

text \<open>The amount before it is rounded for the event.\<close>

definition amount :: "enriched \<Rightarrow> string list \<Rightarrow> fnum" where
  "amount row months =
     fmul (fmul (quarterly row) (owned_quantity row)) (fdiv (Fin 4) (Fin (real (length months))))"

text \<open>
  \<open>round(amount, 2)\<close>. When the yield is positive the amount descends from
  \<open>df.loc[_, "yield"]\<close>, a \<open>numpy.float64\<close>, and so is one itself: the rounding is
  numpy's. Otherwise every factor is a Python float (the row that \<open>iterrows\<close> yields
  has dtype object, its cells are Python floats) and the rounding is Python's.
\<close>

definition round_amount :: "enriched \<Rightarrow> fnum \<Rightarrow> fnum" where
  "round_amount row x = (if fgt (yield row) (Fin 0) then np_round x 2 else py_round x 2)"

text \<open>
  The body of the loop over the months of one holding: an error when a call raises,
  \<open>None\<close> when the date is outside the window, else the event that is appended. The
  chained comparison evaluates \<open>today + timedelta(days=365)\<close> only when
  \<open>today <= pay_date\<close> holds.
\<close>

definition month_event :: "date \<Rightarrow> enriched \<Rightarrow> string list \<Rightarrow> string \<Rightarrow> py_error + div_event option" where
  "month_event today row months m =
     (case month_of_label m of
        None \<Rightarrow> Inl ValueError
      | Some month_num \<Rightarrow>
          (case mk_datetime (resolve_year today month_num) month_num 15 of
             Inl e \<Rightarrow> Inl e
           | Inr pay_date \<Rightarrow>
               if date_le today pay_date then
                 (case add_timedelta today 365 of
                    Inl e \<Rightarrow> Inl e
                  | Inr window_end \<Rightarrow>
                      if date_le pay_date window_end
                      then Inr (Some \<lparr>ev_date = pay_date, ev_ticker = slice row,
                                       ev_amount = round_amount row (amount row months)\<rparr>)
                      else Inr None)
               else Inr None))"

text \<open>The loop over \<open>ms\<close>, the months still to visit: it stops at the first error.\<close>

fun months_events :: "date \<Rightarrow> enriched \<Rightarrow> string list \<Rightarrow> string list \<Rightarrow> py_error + div_event list" where
  "months_events today row months [] = Inr []"
| "months_events today row months (m # ms) =
     (case month_event today row months m of
        Inl e \<Rightarrow> Inl e
      | Inr r \<Rightarrow>
          (case months_events today row months ms of
             Inl e \<Rightarrow> Inl e
           | Inr es \<Rightarrow> Inr ((case r of None \<Rightarrow> [] | Some ev \<Rightarrow> [ev]) @ es)))"

text \<open>One holding: nothing when the ticker has no entry in the table (or an empty one).\<close>

definition holding_events :: "date \<Rightarrow> enriched \<Rightarrow> py_error + div_event list" where
  "holding_events today row =
     (case known_div_schedule (slice row) of
        None \<Rightarrow> Inr []
      | Some months \<Rightarrow> if months = [] then Inr [] else months_events today row months months)"

fun future_divs :: "date \<Rightarrow> enriched list \<Rightarrow> py_error + div_event list" where
  "future_divs today [] = Inr []"
| "future_divs today (row # df) =
     (case holding_events today row of
        Inl e \<Rightarrow> Inl e
      | Inr es \<Rightarrow>
          (case future_divs today df of
             Inl e \<Rightarrow> Inl e
           | Inr rest \<Rightarrow> Inr (es @ rest)))"

text \<open>The reference date the program sets.\<close>

definition today_2025 :: date where
  "today_2025 = \<lparr>year = 2025, month = 11, day = 21\<rparr>"

section \<open>Monthly buckets\<close>







section \<open>Day numbers\<close>

text \<open>
  The number of a day counted from the first of January of the year 1, as
  \<open>date.toordinal\<close> gives it. It is used to reason about \<open>add_days\<close>: one step
  of \<open>next_day\<close> raises it by one.
\<close>

definition dby :: "int \<Rightarrow> int" where
  "dby y = (y - 1) * 365 + (y - 1) div 4 - (y - 1) div 100 + (y - 1) div 400"

function dbm :: "int \<Rightarrow> int \<Rightarrow> int" where
  "dbm y m = (if m \<le> 1 then 0 else days_in_month y (m - 1) + dbm y (m - 1))"
  by pat_completeness auto
termination
  by (relation "measure (\<lambda>(y, m). nat m)") auto

declare dbm.simps [simp del]

definition ordinal :: "date \<Rightarrow> int" where
  "ordinal d = dby (year d) + dbm (year d) (month d) + day d"

definition year_len :: "int \<Rightarrow> int" where
  "year_len y = (if is_leap y then 366 else 365)"

text \<open>A date whose month and day exist, whatever the year.\<close>

definition wf_date :: "date \<Rightarrow> bool" where
  "wf_date d = (1 \<le> month d \<and> month d \<le> 12 \<and> 1 \<le> day d \<and> day d \<le> days_in_month (year d) (month d))"

section \<open>Rounding errors\<close>

text \<open>
  The unit roundoff of binary64, half the spacing of the subnormal numbers, and the grid
  of multiples of the smallest positive binary64 number, on which every binary64 number
  lies. They are used to bound the error of a sum.
\<close>

definition unit_roundoff :: real where
  "unit_roundoff = 2 powi (- 53)"

definition tiny :: real where
  "tiny = 2 powi (- 1075)"

definition on_grid :: "real \<Rightarrow> bool" where
  "on_grid y = (\<exists>k::int. y = of_int k * 2 powi (- 1074))"

text \<open>What a sum of non-negative numbers added in order satisfies, by its outcome.\<close>

definition sum_ok :: "real list \<Rightarrow> fnum \<Rightarrow> bool" where
  "sum_ok as r =
     (case r of
        Fin t \<Rightarrow> 0 \<le> t \<and> on_grid t \<and>
          (1 - unit_roundoff) ^ length as * sum_list as \<le> t \<and>
          t \<le> (1 + unit_roundoff) ^ length as * sum_list as
      | PInf \<Rightarrow> 2 powi 1023 \<le> (1 + unit_roundoff) ^ length as * sum_list as
      | _ \<Rightarrow> False)"

text \<open>The number a finite cell holds.\<close>

fun fin_val :: "fnum \<Rightarrow> real" where
  "fin_val (Fin a) = a"
| "fin_val x = 0"


section \<open>Sample portfolios\<close>

text \<open>Rows, providers and events on which the theorems below are evaluated.\<close>

definition bp_row :: enriched where
  "bp_row = \<lparr>slice = ''BP'', cost_value = Fin 100, owned_quantity = Fin 1, price = Fin 1,
              yield = fdiv (b64 (413 / 100)) (Fin 100)\<rparr>"

definition tie_row :: enriched where
  "tie_row = \<lparr>slice = ''BP'', cost_value = Fin 50, owned_quantity = Fin 50,
               price = b64 (105 / 100), yield = Fin 0\<rparr>"

definition missing_row :: enriched where
  "missing_row = \<lparr>slice = ''AV'', cost_value = Fin 50, owned_quantity = NaN, price = Fin 1,
                   yield = Fin 0\<rparr>"

definition five_row :: enriched where
  "five_row = \<lparr>slice = ''NG'', cost_value = Fin 4, owned_quantity = Fin 5, price = Fin 1,
                yield = Fin 0\<rparr>"

definition unavailable_row :: enriched where
  "unavailable_row = \<lparr>slice = ''BP'', cost_value = Fin 100, owned_quantity = Fin 10, price = Fin 0,
                       yield = Fin (1 / 16)\<rparr>"

definition vod_row :: enriched where
  "vod_row = \<lparr>slice = ''VOD'', cost_value = Fin 70, owned_quantity = Fin 100, price = Fin (3 / 4),
               yield = Fin (1 / 16)\<rparr>"

definition unparsed_holding :: holding where
  "unparsed_holding = \<lparr>slice = ''AV'', cost_value = Fin 50, owned_quantity = NaN\<rparr>"

definition av_holding :: holding where
  "av_holding = \<lparr>slice = ''AV'', cost_value = Fin 50, owned_quantity = Fin 3\<rparr>"

definition ng_holding :: holding where
  "ng_holding = \<lparr>slice = ''NG'', cost_value = Fin 4, owned_quantity = Fin 5\<rparr>"

definition total_holding :: holding where
  "total_holding = \<lparr>slice = ''Total'', cost_value = Fin 54, owned_quantity = NaN\<rparr>"

definition quotes_down :: "string \<Rightarrow> (fnum \<times> fnum) option" where
  "quotes_down tick = (if tick = ''NG.L'' then Some (Fin (21 / 2), Fin 10) else None)"

definition no_fundamentals :: "string \<Rightarrow> (fnum \<times> fnum) list option" where
  "no_fundamentals tick = None"


section \<open>Lemmas on dates\<close>

lemma div_pred:
  fixes y k :: int
  assumes "0 < k"
  shows "y div k = (y - 1) div k + (if y mod k = 0 then 1 else 0)"
proof (cases "y mod k = 0")
  case True
  have "y - 1 = k * (y div k - 1) + (k - 1)"
    using True by (simp add: algebra_simps) (metis mult_div_mod_eq add.right_neutral)
  then have "(y - 1) div k = y div k - 1"
    using assms by (intro int_div_pos_eq [where r = "k - 1"]) simp_all
  with True show ?thesis by simp
next
  case False
  have pos: "0 < y mod k" using False assms
    by (metis pos_mod_sign less_le)
  have "y - 1 = k * (y div k) + (y mod k - 1)" by simp
  moreover have "y mod k < k" using assms by simp
  ultimately have "(y - 1) div k = y div k"
    using pos by (intro int_div_pos_eq [where r = "y mod k - 1"]) simp_all
  with False show ?thesis by simp
qed

lemma mod_100_4: "(y::int) mod 100 = 0 \<Longrightarrow> y mod 4 = 0"
  using mod_mod_cancel [of 4 100 y] by simp

lemma mod_400_100: "(y::int) mod 400 = 0 \<Longrightarrow> y mod 100 = 0"
  using mod_mod_cancel [of 100 400 y] by simp

lemma leap_count:
  fixes x :: int
  assumes "B \<Longrightarrow> A" "C \<Longrightarrow> B"
  shows "x + 365 + (if A then 1 else 0) - (if B then 1 else 0) + (if C then 1 else 0) =
         x + (if A \<and> (\<not> B \<or> C) then 366 else 365)"
  using assms by (cases A; cases B; cases C) simp_all

lemma dby_step: "dby (y + 1) = dby y + year_len y"
proof -
  have a: "y div 4 = (y - 1) div 4 + (if y mod 4 = 0 then 1 else 0)" by (rule div_pred) simp
  have b: "y div 100 = (y - 1) div 100 + (if y mod 100 = 0 then 1 else 0)" by (rule div_pred) simp
  have c: "y div 400 = (y - 1) div 400 + (if y mod 400 = 0 then 1 else 0)" by (rule div_pred) simp
  have "dby (y + 1) = y * 365 + y div 4 - y div 100 + y div 400" by (simp add: dby_def)
  also have "\<dots> = dby y + 365 + (if y mod 4 = 0 then 1 else 0) - (if y mod 100 = 0 then 1 else 0)
      + (if y mod 400 = 0 then 1 else 0)"
    unfolding dby_def by (subst a, subst b, subst c) (simp add: algebra_simps)
  also have "\<dots> = dby y + year_len y"
    unfolding year_len_def is_leap_def
    by (rule leap_count) (erule mod_100_4, erule mod_400_100)
  finally show ?thesis .
qed

lemma dby_mono_nat: "dby y \<le> dby (y + int k)"
proof (induction k)
  case 0
  show ?case by simp
next
  case (Suc k)
  have "dby (y + int (Suc k)) = dby (y + int k) + year_len (y + int k)"
    using dby_step [of "y + int k"] by (simp add: ac_simps)
  with Suc show ?case by (simp add: year_len_def)
qed

lemma dby_mono: "a \<le> b \<Longrightarrow> dby a \<le> dby b"
  using dby_mono_nat [of a "nat (b - a)"] by simp

lemma dbm_succ: "1 \<le> m \<Longrightarrow> dbm y (m + 1) = days_in_month y m + dbm y m"
  by (subst dbm.simps) simp

lemma dbm_1: "dbm y 1 = 0"
  by (subst dbm.simps) simp

lemma month_cases:
  "1 \<le> m \<Longrightarrow> m \<le> 12 \<Longrightarrow>
   m = 1 \<or> m = 2 \<or> m = 3 \<or> m = 4 \<or> m = 5 \<or> m = 6 \<or> m = 7 \<or> m = 8 \<or> m = 9 \<or> m = 10 \<or> m = 11 \<or> m = (12::int)"
  by arith

lemma dbm_values:
  "dbm y 2 = 31" "dbm y 3 = 59 + (if is_leap y then 1 else 0)"
  "dbm y 4 = 90 + (if is_leap y then 1 else 0)" "dbm y 5 = 120 + (if is_leap y then 1 else 0)"
  "dbm y 6 = 151 + (if is_leap y then 1 else 0)" "dbm y 7 = 181 + (if is_leap y then 1 else 0)"
  "dbm y 8 = 212 + (if is_leap y then 1 else 0)" "dbm y 9 = 243 + (if is_leap y then 1 else 0)"
  "dbm y 10 = 273 + (if is_leap y then 1 else 0)" "dbm y 11 = 304 + (if is_leap y then 1 else 0)"
  "dbm y 12 = 334 + (if is_leap y then 1 else 0)"
proof -
  show a2: "dbm y 2 = 31" using dbm_succ [of 1 y] by (simp add: dbm_1 days_in_month_def)
  show a3: "dbm y 3 = 59 + (if is_leap y then 1 else 0)" using dbm_succ [of 2 y] a2 by (simp add: days_in_month_def)
  show a4: "dbm y 4 = 90 + (if is_leap y then 1 else 0)" using dbm_succ [of 3 y] a3 by (simp add: days_in_month_def)
  show a5: "dbm y 5 = 120 + (if is_leap y then 1 else 0)" using dbm_succ [of 4 y] a4 by (simp add: days_in_month_def)
  show a6: "dbm y 6 = 151 + (if is_leap y then 1 else 0)" using dbm_succ [of 5 y] a5 by (simp add: days_in_month_def)
  show a7: "dbm y 7 = 181 + (if is_leap y then 1 else 0)" using dbm_succ [of 6 y] a6 by (simp add: days_in_month_def)
  show a8: "dbm y 8 = 212 + (if is_leap y then 1 else 0)" using dbm_succ [of 7 y] a7 by (simp add: days_in_month_def)
  show a9: "dbm y 9 = 243 + (if is_leap y then 1 else 0)" using dbm_succ [of 8 y] a8 by (simp add: days_in_month_def)
  show a10: "dbm y 10 = 273 + (if is_leap y then 1 else 0)" using dbm_succ [of 9 y] a9 by (simp add: days_in_month_def)
  show a11: "dbm y 11 = 304 + (if is_leap y then 1 else 0)" using dbm_succ [of 10 y] a10 by (simp add: days_in_month_def)
  show "dbm y 12 = 334 + (if is_leap y then 1 else 0)" using dbm_succ [of 11 y] a11 by (simp add: days_in_month_def)
qed

lemma ordinal_next_day:
  assumes "wf_date d"
  shows "ordinal (next_day d) = ordinal d + 1"
proof (cases "day d < days_in_month (year d) (month d)")
  case True
  then show ?thesis by (simp add: next_day_def ordinal_def)
next
  case False
  with assms have last: "day d = days_in_month (year d) (month d)"
    by (simp add: wf_date_def)
  show ?thesis
  proof (cases "month d < 12")
    case True
    with assms have "1 \<le> month d" by (simp add: wf_date_def)
    then show ?thesis
      using True False last by (simp add: next_day_def ordinal_def dbm_succ)
  next
    case False
    with assms have m12: "month d = 12" by (simp add: wf_date_def)
    then show ?thesis
      using last by (simp add: next_day_def ordinal_def dbm_1 dbm_values dby_step year_len_def days_in_month_def)
  qed
qed

lemma wf_next_day:
  assumes "wf_date d"
  shows "wf_date (next_day d)"
  using assms by (auto simp: wf_date_def next_day_def days_in_month_def)

lemma add_days_ordinal:
  "wf_date d \<Longrightarrow> wf_date (add_days n d) \<and> ordinal (add_days n d) = ordinal d + int n"
proof (induction n arbitrary: d)
  case 0
  then show ?case by simp
next
  case (Suc n)
  from Suc.prems have w: "wf_date (next_day d)" by (rule wf_next_day)
  from Suc.IH [OF w] ordinal_next_day [OF Suc.prems] show ?case by simp
qed

lemma ordinal_bounds:
  assumes "wf_date d"
  shows "dby (year d) < ordinal d" and "ordinal d \<le> dby (year d + 1)"
proof -
  from assms have m: "1 \<le> month d" "month d \<le> 12" and dd: "1 \<le> day d" "day d \<le> days_in_month (year d) (month d)"
    by (simp_all add: wf_date_def)
  have nonneg: "0 \<le> dbm (year d) (month d)"
    using month_cases [OF m] by (auto simp: dbm_1 dbm_values)
  with dd show "dby (year d) < ordinal d" by (simp add: ordinal_def)
  have "dbm (year d) (month d) + days_in_month (year d) (month d) \<le> year_len (year d)"
    using month_cases [OF m] by (auto simp: dbm_1 dbm_values days_in_month_def year_len_def)
  with dd show "ordinal d \<le> dby (year d + 1)" by (simp add: ordinal_def dby_step)
qed

lemma year_add_days:
  assumes "wf_date d" "n \<le> 365"
  shows "year (add_days n d) \<le> year d + 1"
proof (rule ccontr)
  assume "\<not> year (add_days n d) \<le> year d + 1"
  then have far: "year d + 2 \<le> year (add_days n d)" by simp
  from add_days_ordinal [OF assms(1), of n]
  have w: "wf_date (add_days n d)" and o: "ordinal (add_days n d) = ordinal d + int n" by simp_all
  have "dby (year d + 2) \<le> dby (year (add_days n d))" using far by (rule dby_mono)
  also have "\<dots> < ordinal (add_days n d)" using ordinal_bounds(1) [OF w] .
  finally have "dby (year d + 2) < ordinal d + int n" using o by simp
  moreover have "dby (year d + 2) = dby (year d + 1) + year_len (year d + 1)"
    using dby_step [of "year d + 1"] by (simp add: ac_simps)
  moreover have "ordinal d \<le> dby (year d + 1)" using ordinal_bounds(2) [OF assms(1)] .
  ultimately show False using assms(2) by (simp add: year_len_def split: if_splits)
qed

lemma valid_date_wf: "valid_date d \<Longrightarrow> wf_date d"
  by (simp add: valid_date_def wf_date_def)

lemma mid_month_valid:
  assumes "1 \<le> k" "k \<le> 12"
  shows "valid_date \<lparr>year = y, month = k, day = 15\<rparr> = (1 \<le> y \<and> y \<le> 9999)"
  using assms by (auto simp: valid_date_def days_in_month_def)

lemma past_month_beyond_window:
  assumes "valid_date today"
  shows "\<not> date_le \<lparr>year = year today + 2, month = k, day = 15\<rparr> (add_days 365 today)"
  using year_add_days [OF valid_date_wf [OF assms], of 365] by (simp add: date_le_def)

lemma window_end_2025: "add_days 365 today_2025 = \<lparr>year = 2026, month = 11, day = 21\<rparr>"
  by code_simp

lemma valid_today_2025: "valid_date today_2025"
  by (simp add: today_2025_def valid_date_def days_in_month_def)

section \<open>Lemmas on the forecast loop\<close>

lemma month_of_label_range:
  assumes "month_of_label m = Some k"
  shows "1 \<le> k \<and> k \<le> 12"
  using assms unfolding month_of_label_def by (auto split: if_splits)

lemma resolve_year_cases:
  "month today < k \<Longrightarrow> resolve_year today k = year today"
  "k = month today \<Longrightarrow> resolve_year today k = year today + 1"
  "k < month today \<Longrightarrow> resolve_year today k = year today + 2"
  by (simp_all add: resolve_year_def)

lemma month_event_past:
  assumes "valid_date today" "month_of_label m = Some k" "k < month today"
  shows "month_event today row months m = (if year today + 2 \<le> 9999 then Inr None else Inl ValueError)"
proof -
  from month_of_label_range [OF assms(2)] have k: "1 \<le> k" "k \<le> 12" by simp_all
  have ry: "resolve_year today k = year today + 2" using assms(3) by (rule resolve_year_cases)
  from assms(1) have y1: "1 \<le> year today" by (simp add: valid_date_def)
  show ?thesis
  proof (cases "year today + 2 \<le> 9999")
    case True
    have mk: "mk_datetime (year today + 2) k 15 = Inr \<lparr>year = year today + 2, month = k, day = 15\<rparr>"
      using mid_month_valid [OF k, of "year today + 2"] True y1 by (simp add: mk_datetime_def)
    have le: "date_le today \<lparr>year = year today + 2, month = k, day = 15\<rparr>"
      by (simp add: date_le_def)
    have "year (add_days 365 today) \<le> year today + 1"
      using year_add_days [OF valid_date_wf [OF assms(1)], of 365] by simp
    with True have add: "add_timedelta today 365 = Inr (add_days 365 today)"
      by (simp add: add_timedelta_def)
    show ?thesis
      using True past_month_beyond_window [OF assms(1), of k]
      by (simp add: month_event_def assms(2) ry mk le add)
  next
    case False
    then have "mk_datetime (year today + 2) k 15 = Inl ValueError"
      using mid_month_valid [OF k, of "year today + 2"] by (simp add: mk_datetime_def)
    with False show ?thesis by (simp add: month_event_def assms(2) ry)
  qed
qed

lemma month_event_date:
  assumes "month_event today row months m = Inr (Some e)"
  shows "\<exists>k. month_of_label m = Some k \<and> ev_date e = \<lparr>year = resolve_year today k, month = k, day = 15\<rparr>
           \<and> ev_ticker e = slice row \<and> ev_amount e = round_amount row (amount row months)"
  using assms unfolding month_event_def mk_datetime_def
  by (auto simp: Let_def split: option.splits sum.splits if_splits)

lemma months_events_mem:
  assumes "months_events today row months ms = Inr es" "e \<in> set es"
  shows "\<exists>m \<in> set ms. month_event today row months m = Inr (Some e)"
  using assms
proof (induction ms arbitrary: es)
  case Nil
  then show ?case by simp
next
  case (Cons m ms)
  then show ?case by (auto split: sum.splits option.splits)
qed

lemma holding_events_mem:
  assumes "holding_events today row = Inr es" "e \<in> set es"
  shows "\<exists>months m. known_div_schedule (slice row) = Some months \<and> m \<in> set months \<and>
           month_event today row months m = Inr (Some e)"
proof (cases "known_div_schedule (slice row)")
  case None
  with assms show ?thesis by (simp add: holding_events_def)
next
  case (Some months)
  with assms have "months_events today row months months = Inr es"
    by (simp add: holding_events_def split: if_splits)
  from months_events_mem [OF this assms(2)] Some show ?thesis by blast
qed

lemma future_divs_mem:
  assumes "future_divs today df = Inr es" "e \<in> set es"
  shows "\<exists>row \<in> set df. \<exists>hs. holding_events today row = Inr hs \<and> e \<in> set hs"
  using assms
proof (induction df arbitrary: es)
  case Nil
  then show ?case by simp
next
  case (Cons row df)
  then show ?case by (auto split: sum.splits)
qed

text \<open>The loops return for every reference date up to the year 9997.\<close>

lemma schedule_labels:
  assumes "known_div_schedule t = Some months" and "m \<in> set months"
  shows "\<exists>k. month_of_label m = Some k"
  using assms unfolding known_div_schedule_def
  by (auto simp: month_of_label_def split: if_splits)

lemma month_event_returns:
  assumes "valid_date today" and "year today \<le> 9997" and "month_of_label m = Some k"
  shows "\<exists>r. month_event today row months m = Inr r"
proof -
  from month_of_label_range [OF assms(3)] have k: "1 \<le> k" "k \<le> 12" by simp_all
  from assms(1) have y1: "1 \<le> year today" by (simp add: valid_date_def)
  have ry: "year today \<le> resolve_year today k" "resolve_year today k \<le> year today + 2"
    by (simp_all add: resolve_year_def Let_def)
  with y1 assms(2) have "valid_date \<lparr>year = resolve_year today k, month = k, day = 15\<rparr>"
    by (simp add: mid_month_valid [OF k])
  then have p: "mk_datetime (resolve_year today k) k 15 =
      Inr \<lparr>year = resolve_year today k, month = k, day = 15\<rparr>"
    by (simp add: mk_datetime_def)
  from year_add_days [OF valid_date_wf [OF assms(1)], of 365] assms(2)
  have w: "add_timedelta today 365 = Inr (add_days 365 today)"
    by (simp add: add_timedelta_def Let_def)
  show ?thesis by (simp add: month_event_def assms(3) p w)
qed

lemma months_events_returns:
  assumes "\<forall>m \<in> set ms. \<exists>r. month_event today row months m = Inr r"
  shows "\<exists>es. months_events today row months ms = Inr es"
  using assms by (induction ms) auto

lemma holding_events_returns:
  assumes "valid_date today" and "year today \<le> 9997"
  shows "\<exists>es. holding_events today row = Inr es"
proof (cases "known_div_schedule (slice row)")
  case None
  then show ?thesis by (simp add: holding_events_def)
next
  case (Some months)
  have "\<forall>m \<in> set months. \<exists>r. month_event today row months m = Inr r"
  proof
    fix m assume "m \<in> set months"
    from schedule_labels [OF Some this] obtain k where "month_of_label m = Some k" ..
    from month_event_returns [OF assms this] show "\<exists>r. month_event today row months m = Inr r" .
  qed
  from months_events_returns [OF this] Some show ?thesis by (simp add: holding_events_def)
qed

section \<open>Lemmas on binary64 rounding\<close>

lemma exp_down_ge_1: "1 \<le> a \<Longrightarrow> exp_down k a = 0"
  by (cases k) simp_all

lemma exp_up_spec:
  "1 \<le> a \<Longrightarrow>
   0 \<le> exp_up k a \<and> exp_up k a \<le> int k \<and> 2 powi (exp_up k a) \<le> a \<and>
   (exp_up k a < int k \<longrightarrow> a < 2 powi (exp_up k a + 1))"
proof (induction k arbitrary: a)
  case 0
  then show ?case by simp
next
  case (Suc k)
  show ?case
  proof (cases "2 \<le> a")
    case True
    then have h: "1 \<le> a / 2" by simp
    let ?e = "exp_up k (a / 2)"
    from Suc.IH [OF h] have ih: "0 \<le> ?e" "?e \<le> int k" "2 powi ?e \<le> a / 2"
      "?e < int k \<longrightarrow> a / 2 < 2 powi (?e + 1)" by simp_all
    have p1: "(2::real) powi (?e + 1) = 2 powi ?e * 2" by (simp add: power_int_add)
    have p2: "(2::real) powi (?e + 1 + 1) = 2 powi (?e + 1) * 2" by (simp add: power_int_add)
    from ih p1 p2 True show ?thesis by (auto simp: field_simps)
  next
    case False
    with Suc.prems show ?thesis by simp
  qed
qed

lemma exp_down_spec:
  "0 < a \<Longrightarrow> a < 1 \<Longrightarrow>
   - int k \<le> exp_down k a \<and> exp_down k a \<le> 0 \<and> a < 2 powi (exp_down k a + 1) \<and>
   (- int k < exp_down k a \<longrightarrow> 2 powi (exp_down k a) \<le> a)"
proof (induction k arbitrary: a)
  case 0
  then show ?case by simp
next
  case (Suc k)
  show ?case
  proof (cases "a * 2 < 1")
    case True
    let ?e = "exp_down k (a * 2)"
    from Suc.prems have "0 < a * 2" by simp
    from Suc.IH [OF this True] have ih: "- int k \<le> ?e" "?e \<le> 0" "a * 2 < 2 powi (?e + 1)"
      "- int k < ?e \<longrightarrow> 2 powi ?e \<le> a * 2" by simp_all
    have p1: "(2::real) powi (?e + 1) = 2 powi ?e * 2" by (simp add: power_int_add)
    have p2: "(2::real) powi ?e = 2 powi (?e - 1) * 2"
      using power_int_add [of "2::real" "?e - 1" 1] by simp
    from ih p1 p2 Suc.prems show ?thesis by (auto simp: field_simps)
  next
    case False
    then have "exp_down k (a * 2) = 0" by (simp add: exp_down_ge_1)
    with False Suc.prems show ?thesis by (simp add: power_int_minus field_simps)
  qed
qed

lemma b64_exponent_range:
  assumes "0 < a"
  shows "- 1022 \<le> b64_exponent a" and "b64_exponent a \<le> 1024"
  using exp_up_spec [of a 1024] exp_down_spec [of a 1022] assms
  by (auto simp: b64_exponent_def)

lemma b64_exponent_upper:
  assumes "0 < a" "a < 2 powi 1024"
  shows "a < 2 powi (b64_exponent a + 1)"
proof (cases "1 \<le> a")
  case True
  have "exp_up 1024 a < 1024"
  proof (rule ccontr)
    assume "\<not> exp_up 1024 a < 1024"
    with exp_up_spec [OF True, of 1024] have e: "exp_up 1024 a = 1024" by simp
    from exp_up_spec [OF True, of 1024] have l: "2 powi (exp_up 1024 a) \<le> a" by blast
    from l have "2 powi 1024 \<le> a" unfolding e .
    with assms(2) have "a < a" by (rule less_le_trans)
    then show False by (simp only: less_irrefl)
  qed
  with exp_up_spec [OF True, of 1024] True show ?thesis
    by (simp add: b64_exponent_def)
next
  case False
  with exp_down_spec [of a 1022] assms(1) show ?thesis
    by (simp add: b64_exponent_def)
qed

lemma b64_exponent_lower:
  assumes "2 powi (- 1022) \<le> a"
  shows "2 powi (b64_exponent a) \<le> a"
proof (cases "1 \<le> a")
  case True
  from exp_up_spec [OF True, of 1024] True show ?thesis by (simp add: b64_exponent_def)
next
  case False
  have "0 < a" using assms by (rule less_le_trans [rotated]) simp
  with exp_down_spec [of a 1022] False assms show ?thesis
    by (cases "- 1022 < exp_down 1022 a") (auto simp: b64_exponent_def)
qed

lemma powi_less_cancel:
  assumes "(2::real) powi m < 2 powi n"
  shows "m < n"
proof (rule ccontr)
  assume "\<not> m < n"
  then have "(2::real) powi n \<le> 2 powi m" by (intro power_int_increasing) simp_all
  with assms show False by simp
qed

lemma b64_exponent_eq:
  assumes "2 powi e \<le> a" "a < 2 powi (e + 1)" "- 1022 \<le> e" "e \<le> 1023"
  shows "b64_exponent a = e"
proof -
  have pos: "0 < a" using assms(1) by (rule less_le_trans [rotated]) simp
  have "(2::real) powi (e + 1) \<le> 2 powi 1024"
    using assms(4) by (intro power_int_increasing) simp_all
  with assms(2) have lt: "a < 2 powi 1024" by simp
  have "(2::real) powi (- 1022) \<le> 2 powi e"
    using assms(3) by (intro power_int_increasing) simp_all
  with assms(1) have ge: "2 powi (- 1022) \<le> a" by simp
  let ?e = "b64_exponent a"
  from b64_exponent_upper [OF pos lt] assms(1) have "(2::real) powi e < 2 powi (?e + 1)" by simp
  then have 1: "e < ?e + 1" by (rule powi_less_cancel)
  from b64_exponent_lower [OF ge] assms(2) have "(2::real) powi ?e < 2 powi (e + 1)" by simp
  then have 2: "?e < e + 1" by (rule powi_less_cancel)
  from 1 2 show ?thesis by simp
qed

lemma b64_exponent_subnormal:
  assumes "0 < a" "a < 2 powi (- 1022)"
  shows "b64_exponent a = - 1022"
proof -
  have lt1: "a < 1" using assms(2) by (rule less_le_trans) (simp add: power_int_minus field_simps)
  let ?e = "exp_down 1022 a"
  from exp_down_spec [OF assms(1) lt1, of 1022]
  have s: "- 1022 \<le> ?e" "- 1022 < ?e \<longrightarrow> 2 powi ?e \<le> a" by simp_all
  have "\<not> - 1022 < ?e"
  proof
    assume l: "- 1022 < ?e"
    with s have "2 powi ?e \<le> a" by simp
    with assms(2) have "(2::real) powi ?e < 2 powi (- 1022)" by simp
    from powi_less_cancel [OF this] l show False by simp
  qed
  with s lt1 show ?thesis by (simp add: b64_exponent_def)
qed

lemma round_half_even_error: "\<bar>of_int (round_half_even x) - x\<bar> \<le> 1 / 2"
proof -
  have "of_int \<lfloor>x\<rfloor> \<le> x" "x < of_int \<lfloor>x\<rfloor> + 1" by linarith+
  then show ?thesis by (auto simp: round_half_even_def Let_def)
qed

lemma round_half_even_int [simp]: "round_half_even (of_int k) = k"
  by (simp add: round_half_even_def)

lemma round_half_even_ge:
  assumes "of_int k \<le> x"
  shows "k \<le> round_half_even x"
proof -
  from assms have "k \<le> \<lfloor>x\<rfloor>" by (simp add: le_floor_iff)
  then show ?thesis by (auto simp: round_half_even_def Let_def)
qed

lemma round_half_even_le:
  assumes "x \<le> of_int k"
  shows "round_half_even x \<le> k"
proof (cases "x = of_int k")
  case True
  then show ?thesis by simp
next
  case False
  with assms have "x < of_int k" by simp
  then have "\<lfloor>x\<rfloor> < k" by (simp add: floor_less_iff)
  then show ?thesis by (auto simp: round_half_even_def Let_def)
qed

lemma b64_pos:
  assumes "0 < a"
  shows "b64 a =
    (if (2::real) powi 1024 \<le>
          real_of_int (round_half_even (a / 2 powi (b64_exponent a - 52))) * 2 powi (b64_exponent a - 52)
     then PInf
     else Fin (real_of_int (round_half_even (a / 2 powi (b64_exponent a - 52))) * 2 powi (b64_exponent a - 52)))"
proof -
  from assms have "a \<noteq> 0" "\<bar>a\<bar> = a" by simp_all
  then show ?thesis unfolding b64_def Let_def using assms by (simp only: if_False if_True)
qed

lemma powi_add2: "(2::real) powi (a + b) = 2 powi a * 2 powi b"
  by (rule power_int_add) simp

lemma powi_split: "(2::real) powi (e - 52) * 2 powi 53 = 2 powi (e + 1)"
proof -
  have "e - 52 + 53 = e + 1" by simp
  with powi_add2 [of "e - 52" 53] show ?thesis by (simp only:)
qed

lemma powi_half: "(2::real) powi (e - 52) / 2 = 2 powi e * 2 powi (- 53)"
proof -
  have "e + (- 53) + 1 = e - 52" by simp
  with powi_add2 [of "e + (- 53)" 1] have "(2::real) powi (e - 52) = 2 powi (e + (- 53)) * 2 powi 1"
    by (simp only:)
  also have "\<dots> = 2 powi e * 2 powi (- 53) * 2"
    by (simp only: powi_add2 [of e "- 53"] power_int_1_right)
  finally show ?thesis by simp
qed

lemma rounded_error:
  assumes "0 < ulp"
  shows "\<bar>of_int (round_half_even (a / ulp)) * ulp - a\<bar> \<le> ulp / 2"
proof -
  have "of_int (round_half_even (a / ulp)) * ulp - a = (of_int (round_half_even (a / ulp)) - a / ulp) * ulp"
    using assms by (simp add: field_simps)
  then have "\<bar>of_int (round_half_even (a / ulp)) * ulp - a\<bar> =
      \<bar>of_int (round_half_even (a / ulp)) - a / ulp\<bar> * ulp"
    using assms by (simp add: abs_mult)
  also have "\<dots> \<le> 1 / 2 * ulp"
    using assms round_half_even_error [of "a / ulp"] by (intro mult_right_mono) simp_all
  finally show ?thesis by simp
qed

lemma grid_of_mantissa:
  assumes "- 1022 \<le> e"
  shows "on_grid (of_int m * 2 powi (e - 52))"
proof -
  have "(2::real) powi (e - 52) = 2 powi (e + 1022) * 2 powi (- 1074)"
    using power_int_add [of "2::real" "e + 1022" "- 1074"] by simp
  also have "(2::real) powi (e + 1022) = of_int (2 ^ nat (e + 1022))"
    using assms by (simp add: power_int_def)
  finally have "of_int m * (2::real) powi (e - 52) = of_int (m * 2 ^ nat (e + 1022)) * 2 powi (- 1074)"
    by simp
  then show ?thesis unfolding on_grid_def by blast
qed

lemma b64_Fin_pos:
  assumes "0 < a" "b64 a = Fin y"
  shows "0 \<le> y" and "on_grid y"
    and "2 powi (- 1022) \<le> a \<Longrightarrow> \<bar>y - a\<bar> \<le> unit_roundoff * a"
    and "a < 2 powi (- 1022) \<Longrightarrow> \<bar>y - a\<bar> \<le> tiny"
proof -
  let ?e = "b64_exponent a"
  let ?ulp = "(2::real) powi (?e - 52)"
  let ?m = "round_half_even (a / ?ulp)"
  have ulp: "0 < ?ulp" by simp
  from assms have y: "y = of_int ?m * ?ulp"
    by (simp add: b64_pos [OF assms(1)] split: if_splits)
  have "0 \<le> a / ?ulp" using assms(1) by simp
  then have "0 \<le> ?m" using round_half_even_ge [of 0 "a / ?ulp"] by simp
  then show "0 \<le> y" unfolding y by simp
  from b64_exponent_range(1) [OF assms(1)] show "on_grid y"
    unfolding y by (rule grid_of_mantissa)
  have err: "\<bar>y - a\<bar> \<le> ?ulp / 2" unfolding y using ulp by (rule rounded_error)
  {
    assume n: "2 powi (- 1022) \<le> a"
    have "?ulp / 2 = 2 powi ?e * 2 powi (- 53)" by (rule powi_half)
    also have "\<dots> \<le> a * 2 powi (- 53)"
      using b64_exponent_lower [OF n] by (intro mult_right_mono) simp_all
    finally show "\<bar>y - a\<bar> \<le> unit_roundoff * a"
      using err by (simp add: mult.commute unit_roundoff_def)
  }
  {
    assume s: "a < 2 powi (- 1022)"
    have e: "?e = - 1022" using assms(1) s by (rule b64_exponent_subnormal)
    have "?ulp / 2 = 2 powi (- 1075)"
      unfolding e using power_int_add [of "2::real" "- 1075" 1] by simp
    with err show "\<bar>y - a\<bar> \<le> tiny" by (simp add: tiny_def)
  }
qed

lemma b64_no_overflow:
  assumes "0 \<le> a" "a < 2 powi 1023"
  shows "\<exists>y. b64 a = Fin y"
proof (cases "a = 0")
  case True
  then show ?thesis by (simp add: b64_def)
next
  case False
  with assms have pos: "0 < a" by simp
  let ?e = "b64_exponent a"
  let ?ulp = "(2::real) powi (?e - 52)"
  let ?m = "round_half_even (a / ?ulp)"
  have lt: "a < 2 powi 1024"
    using assms(2) by (rule less_le_trans) (intro power_int_increasing, simp_all)
  have up: "a < 2 powi (?e + 1)" using pos lt by (rule b64_exponent_upper)
  have e: "?e \<le> 1022"
  proof (cases "2 powi (- 1022) \<le> a")
    case True
    from b64_exponent_lower [OF True] assms(2) have "(2::real) powi ?e < 2 powi 1023" by simp
    from powi_less_cancel [OF this] show ?thesis by simp
  next
    case False
    then have "?e = - 1022" using pos by (intro b64_exponent_subnormal) simp_all
    then show ?thesis by simp
  qed
  have "a / ?ulp < 2 powi 53"
    using up powi_split [of ?e] by (simp add: field_simps)
  then have "a / ?ulp \<le> of_int (2 ^ 53)" by simp
  then have "?m \<le> 2 ^ 53" by (rule round_half_even_le)
  then have "of_int ?m \<le> (2::real) powi 53" by (simp add: of_int_le_iff [symmetric] del: of_int_le_iff)
  then have "of_int ?m * ?ulp \<le> 2 powi 53 * ?ulp" by (intro mult_right_mono) simp_all
  also have "\<dots> = 2 powi (?e + 1)" using powi_split [of ?e] by (simp add: mult.commute)
  also have "\<dots> \<le> 2 powi 1023" using e by (intro power_int_increasing) simp_all
  also have "\<dots> < (2::real) powi 1024" by (intro power_int_strict_increasing) simp_all
  finally have "\<not> 2 powi 1024 \<le> of_int ?m * ?ulp" by (simp only: not_le)
  then show ?thesis unfolding b64_pos [OF pos] by (simp only: if_False) blast
qed

lemma b64_nonneg_cases:
  assumes "0 \<le> a"
  shows "b64 a = PInf \<or> (\<exists>y. b64 a = Fin y)"
proof (cases "a = 0")
  case True
  then show ?thesis by (simp add: b64_def)
next
  case False
  with assms have "0 < a" by simp
  then show ?thesis unfolding b64_pos [OF \<open>0 < a\<close>] by (simp only: split: if_splits) blast
qed

lemma b64_grid_exact:
  assumes "on_grid a" "0 \<le> a" "a < 2 powi (- 1022)"
  shows "b64 a = Fin a"
proof (cases "a = 0")
  case True
  then show ?thesis by (simp add: b64_def)
next
  case False
  with assms have pos: "0 < a" by simp
  from assms(1) obtain k :: int where k: "a = of_int k * 2 powi (- 1074)"
    unfolding on_grid_def by blast
  have e: "b64_exponent a = - 1022" using pos assms(3) by (rule b64_exponent_subnormal)
  have q: "a / 2 powi (- 1022 - 52) = of_int k" unfolding k by simp
  have "a < 2 powi 1023"
    using assms(3) by (rule less_le_trans) (intro power_int_increasing, simp_all)
  from b64_no_overflow [OF assms(2) this] obtain y where y: "b64 a = Fin y" by blast
  from y have "y = of_int (round_half_even (a / 2 powi (- 1022 - 52))) * 2 powi (- 1022 - 52)"
    by (simp add: b64_pos [OF pos] e split: if_splits)
  then have "y = a" unfolding q k by simp
  with y show ?thesis by simp
qed

lemma b64_cert:
  assumes "2 powi e \<le> a" "a < 2 powi (e + 1)" "- 1022 \<le> e" "e \<le> 1022"
      and "round_half_even (a / 2 powi (e - 52)) = m" "y = of_int m * 2 powi (e - 52)"
  shows "b64 a = Fin y"
proof -
  have pos: "0 < a" using assms(1) by (rule less_le_trans [rotated]) simp
  have e: "b64_exponent a = e" using assms(1-4) by (intro b64_exponent_eq) simp_all
  have "(2::real) powi (e + 1) \<le> 2 powi 1023"
    using assms(4) by (intro power_int_increasing) simp_all
  with assms(2) have "a < 2 powi 1023" by simp
  from b64_no_overflow [OF less_imp_le [OF pos] this] obtain z where z: "b64 a = Fin z" by blast
  from z have "z = y" unfolding assms(6) assms(5) [symmetric]
    by (simp add: b64_pos [OF pos] e split: if_splits)
  with z show ?thesis by simp
qed

lemma on_grid_0: "on_grid 0"
  unfolding on_grid_def by (rule exI [of _ 0]) simp

lemma on_grid_add:
  assumes "on_grid a" "on_grid b"
  shows "on_grid (a + b)"
proof -
  from assms obtain k l :: int where "a = of_int k * 2 powi (- 1074)" "b = of_int l * 2 powi (- 1074)"
    unfolding on_grid_def by blast
  then have "a + b = of_int (k + l) * 2 powi (- 1074)" by (simp add: algebra_simps)
  then show ?thesis unfolding on_grid_def by blast
qed

lemma b64_grid: "b64 x = Fin y \<Longrightarrow> on_grid y"
proof -
  assume a: "b64 x = Fin y"
  show ?thesis
  proof (cases "x = 0")
    case True
    with a show ?thesis by (simp add: b64_def on_grid_0)
  next
    case False
    then have pos: "0 < \<bar>x\<bar>" by simp
    let ?e = "b64_exponent \<bar>x\<bar>"
    let ?r = "real_of_int (round_half_even (\<bar>x\<bar> / 2 powi (?e - 52))) * 2 powi (?e - 52)"
    from a False have "y = ?r \<or> y = - ?r"
      by (simp add: b64_def Let_def split: if_splits)
    moreover have g: "on_grid ?r"
      using b64_exponent_range(1) [OF pos] by (rule grid_of_mantissa)
    moreover from g have "on_grid (- ?r)"
      unfolding on_grid_def by (metis mult_minus_left of_int_minus)
    ultimately show ?thesis by auto
  qed
qed

lemma add_bound:
  assumes "0 \<le> a" "0 \<le> t" "on_grid a" "on_grid t" "b64 (a + t) = Fin y"
  shows "0 \<le> y" and "(1 - unit_roundoff) * (a + t) \<le> y" and "y \<le> (1 + unit_roundoff) * (a + t)"
proof -
  have g: "on_grid (a + t)" using assms(3,4) by (rule on_grid_add)
  have s: "0 \<le> a + t" using assms(1,2) by simp
  have u: "0 \<le> unit_roundoff" by (simp add: unit_roundoff_def)
  have "0 \<le> y \<and> \<bar>y - (a + t)\<bar> \<le> unit_roundoff * (a + t)"
  proof (cases "a + t = 0")
    case True
    with assms(5) show ?thesis by (simp add: b64_def)
  next
    case False
    with s have pos: "0 < a + t" by simp
    show ?thesis
    proof (cases "2 powi (- 1022) \<le> a + t")
      case True
      from b64_Fin_pos(1) [OF pos assms(5)] b64_Fin_pos(3) [OF pos assms(5) True]
      show ?thesis by simp
    next
      case False
      then have "a + t < 2 powi (- 1022)" by simp
      from b64_grid_exact [OF g s this] assms(5) have "y = a + t" by simp
      with s u show ?thesis by simp
    qed
  qed
  then show "0 \<le> y" and "(1 - unit_roundoff) * (a + t) \<le> y"
    and "y \<le> (1 + unit_roundoff) * (a + t)"
    by (simp_all add: abs_le_iff algebra_simps)
qed

lemma sum_list_nonneg': "\<forall>a \<in> set as. 0 \<le> (a::real) \<Longrightarrow> 0 \<le> sum_list as"
  by (induction as) simp_all

lemma fold_fadd_bounds:
  assumes "\<forall>a \<in> set as. 0 \<le> a \<and> on_grid a"
  shows "sum_ok as (fold fadd (map Fin as) (Fin 0))"
  using assms
proof (induction as rule: rev_induct)
  case Nil
  show ?case by (simp add: sum_ok_def on_grid_0)
next
  case (snoc a as)
  let ?u = "unit_roundoff"
  let ?n = "length as"
  let ?S = "sum_list as"
  let ?p = "fold fadd (map Fin as) (Fin 0)"
  from snoc.prems have a: "0 \<le> a" "on_grid a" and rest: "\<forall>x \<in> set as. 0 \<le> x \<and> on_grid x"
    by simp_all
  from snoc.IH [OF rest] have ih: "sum_ok as ?p" .
  have S: "0 \<le> ?S" using rest by (intro sum_list_nonneg') simp
  have u0: "0 \<le> ?u" "?u \<le> 1" by (simp_all add: unit_roundoff_def power_int_minus field_simps)
  have up1: "1 \<le> (1 + ?u) ^ ?n" using u0 by (intro one_le_power) simp
  have lo1: "(1 - ?u) ^ ?n \<le> 1" "0 \<le> (1 - ?u) ^ ?n" using u0 by (simp_all add: power_le_one)
  have step: "fold fadd (map Fin (as @ [a])) (Fin 0) = fadd (Fin a) ?p" by simp
  have up_mono: "(1 + ?u) ^ ?n * (a + ?S) \<le> (1 + ?u) ^ Suc ?n * (?S + a)"
  proof -
    have X: "0 \<le> (1 + ?u) ^ ?n * (a + ?S)" using u0 a S by simp
    from u0(1) X have "0 \<le> ?u * ((1 + ?u) ^ ?n * (a + ?S))" by (rule mult_nonneg_nonneg)
    then have "(1 + ?u) ^ ?n * (a + ?S) \<le> (1 + ?u) * ((1 + ?u) ^ ?n * (a + ?S))"
      by (simp only: distrib_right mult_1)
    then show ?thesis by (simp add: mult.assoc add.commute)
  qed
  show ?case
  proof (cases ?p)
    case (Fin t')
    with ih have t': "0 \<le> t'" "on_grid t'" "(1 - ?u) ^ ?n * ?S \<le> t'" "t' \<le> (1 + ?u) ^ ?n * ?S"
      by (simp_all add: sum_ok_def)
    have hi: "a + t' \<le> (1 + ?u) ^ ?n * (a + ?S)"
    proof -
      have "a \<le> (1 + ?u) ^ ?n * a" using up1 a by (simp add: mult_le_cancel_right1)
      with t'(4) show ?thesis by (simp add: algebra_simps)
    qed
    have lo: "(1 - ?u) ^ ?n * (a + ?S) \<le> a + t'"
    proof -
      have "(1 - ?u) ^ ?n * a \<le> a" using lo1 a by (simp add: mult_le_cancel_right2)
      with t'(3) show ?thesis by (simp add: algebra_simps)
    qed
    from b64_nonneg_cases [of "a + t'"] a t' consider
      (inf) "b64 (a + t') = PInf" | (fin) y where "b64 (a + t') = Fin y" by auto
    then show ?thesis
    proof cases
      case inf
      have "\<not> a + t' < 2 powi 1023"
      proof
        assume "a + t' < 2 powi 1023"
        with b64_no_overflow [of "a + t'"] a t' inf show False by simp
      qed
      then have "2 powi 1023 \<le> a + t'" by simp
      also note hi
      also note up_mono
      finally show ?thesis using inf Fin by (simp add: sum_ok_def step)
    next
      case fin
      from add_bound [OF a(1) t'(1) a(2) t'(2) fin]
      have y: "0 \<le> y" "(1 - ?u) * (a + t') \<le> y" "y \<le> (1 + ?u) * (a + t')" .
      have "y \<le> (1 + ?u) * ((1 + ?u) ^ ?n * (a + ?S))"
        using y(3) hi u0 by (meson add_nonneg_nonneg mult_left_mono order_trans zero_le_one)
      then have yh: "y \<le> (1 + ?u) ^ Suc ?n * (?S + a)" by (simp add: mult.assoc add.commute)
      have "(1 - ?u) * ((1 - ?u) ^ ?n * (a + ?S)) \<le> y"
      proof -
        have "(1 - ?u) * ((1 - ?u) ^ ?n * (a + ?S)) \<le> (1 - ?u) * (a + t')"
          using lo u0 by (intro mult_left_mono) simp_all
        with y(2) show ?thesis by simp
      qed
      then have yl: "(1 - ?u) ^ Suc ?n * (?S + a) \<le> y" by (simp add: mult.assoc add.commute)
      from b64_grid [OF fin] y(1) yh yl fin Fin show ?thesis
        by (simp add: sum_ok_def step)
    qed
  next
    case PInf
    with ih have "2 powi 1023 \<le> (1 + ?u) ^ ?n * ?S" by (simp add: sum_ok_def)
    also have "\<dots> \<le> (1 + ?u) ^ ?n * (a + ?S)" using a up1 by (intro mult_left_mono) simp_all
    also note up_mono
    finally show ?thesis using PInf by (simp add: sum_ok_def step)
  next
    case NInf
    with ih show ?thesis by (simp add: sum_ok_def)
  next
    case NaN
    with ih show ?thesis by (simp add: sum_ok_def)
  qed
qed

section \<open>Lemmas on weights\<close>

lemma tiny_nonneg: "0 \<le> tiny"
  by (simp add: tiny_def)

lemma unit_roundoff_bounds: "0 \<le> unit_roundoff" "unit_roundoff \<le> 1 / 10 ^ 15"
  by (simp_all add: unit_roundoff_def power_int_minus field_simps)

lemma tiny_small: "tiny \<le> 1 / 10 ^ 15"
proof -
  have "tiny \<le> unit_roundoff"
    unfolding tiny_def unit_roundoff_def by (intro power_int_increasing) simp_all
  with unit_roundoff_bounds(2) show ?thesis by simp
qed

lemma fmul_Fin_grid: "fmul x y = Fin a \<Longrightarrow> on_grid a"
  by (cases x; cases y) (auto simp: inf_of_sign_def b64_grid split: if_splits)

lemma div_bound:
  assumes "0 \<le> a" "0 < t" "a / t < 2 powi 1023"
  shows "\<exists>w. fdiv (Fin a) (Fin t) = Fin w \<and> 0 \<le> w \<and> on_grid w \<and>
           (1 - unit_roundoff) * (a / t) - tiny \<le> w \<and> w \<le> (1 + unit_roundoff) * (a / t) + tiny"
proof -
  define x where "x = a / t"
  have x: "0 \<le> x" using assms(1,2) by (simp add: x_def)
  have lt: "x < 2 powi 1023" using assms(3) by (simp only: x_def)
  have d: "fdiv (Fin a) (Fin t) = b64 x" using assms(2) by (simp add: x_def)
  from b64_no_overflow [OF x lt] obtain w where w: "b64 x = Fin w" by blast
  have g: "on_grid w" using w by (rule b64_grid)
  have "0 \<le> w \<and> \<bar>w - x\<bar> \<le> unit_roundoff * x + tiny"
  proof (cases "x = 0")
    case True
    with w have "w = 0" by (simp add: b64_def)
    with True tiny_nonneg show ?thesis by simp
  next
    case False
    with x have pos: "0 < x" by simp
    have ux: "0 \<le> unit_roundoff * x" using unit_roundoff_bounds(1) x by (rule mult_nonneg_nonneg)
    show ?thesis
    proof (cases "2 powi (- 1022) \<le> x")
      case True
      from b64_Fin_pos(1) [OF pos w] b64_Fin_pos(3) [OF pos w True] tiny_nonneg
      show ?thesis by simp
    next
      case False
      then have "x < 2 powi (- 1022)" by simp
      from b64_Fin_pos(1) [OF pos w] b64_Fin_pos(4) [OF pos w this] ux
      show ?thesis by simp
    qed
  qed
  then have "0 \<le> w" "(1 - unit_roundoff) * x - tiny \<le> w" "w \<le> (1 + unit_roundoff) * x + tiny"
    by (simp_all add: abs_le_iff algebra_simps)
  with d w g show ?thesis unfolding x_def by simp
qed

lemma member_le_sum_list_real:
  assumes "x \<in> set xs" "\<forall>y \<in> set xs. 0 \<le> (y::real)"
  shows "x \<le> sum_list xs"
  using assms
proof (induction xs)
  case Nil
  then show ?case by simp
next
  case (Cons y ys)
  have "0 \<le> sum_list ys" using Cons.prems(2) by (intro sum_list_nonneg') simp
  with Cons show ?case by auto
qed

lemma sum_list_affine:
  "sum_list (map (\<lambda>r. c * (f r / t) + e) xs) =
   c * (sum_list (map f xs) / t) + real (length xs) * (e::real)"
  by (induction xs) (simp_all add: algebra_simps add_divide_distrib)

lemma sum_list_affine':
  "sum_list (map (\<lambda>r. c * (f r / t) - e) xs) =
   c * (sum_list (map f xs) / t) - real (length xs) * (e::real)"
  by (induction xs) (simp_all add: algebra_simps add_divide_distrib)

lemma pow_lower:
  assumes "n \<le> 10 ^ 9"
  shows "999999 / 1000000 \<le> (1 - unit_roundoff) ^ n"
proof -
  have "real n \<le> 10 ^ 9" using assms by (metis of_nat_le_iff of_nat_numeral of_nat_power)
  then have "real n * unit_roundoff \<le> 10 ^ 9 * (1 / 10 ^ 15)"
    using unit_roundoff_bounds by (intro mult_mono) simp_all
  then have "1 - 1 / 10 ^ 6 \<le> 1 + real n * (- unit_roundoff)" by simp
  also have "\<dots> \<le> (1 + (- unit_roundoff)) ^ n"
    using unit_roundoff_bounds by (intro Bernoulli_inequality) simp
  finally show ?thesis by simp
qed

lemma pow_upper:
  assumes "n \<le> 10 ^ 9"
  shows "(1 + unit_roundoff) ^ n \<le> 500001 / 500000"
proof -
  let ?u = unit_roundoff
  have u: "0 \<le> ?u" "?u \<le> 1" using unit_roundoff_bounds by simp_all
  have "(1 + ?u) ^ n * (1 - ?u) ^ n = ((1 + ?u) * (1 - ?u)) ^ n" by (simp add: power_mult_distrib)
  also have "\<dots> \<le> 1"
  proof (rule power_le_one)
    have "(1 + ?u) * (1 - ?u) = 1 - ?u * ?u" by (simp add: algebra_simps)
    then show "(1 + ?u) * (1 - ?u) \<le> 1" using u by simp
    show "0 \<le> (1 + ?u) * (1 - ?u)" using u by simp
  qed
  finally have p: "(1 + ?u) ^ n * (1 - ?u) ^ n \<le> 1" .
  have d: "0 \<le> (1 + ?u) ^ n" using u by simp
  have "(1 + ?u) ^ n * (999999 / 1000000) \<le> (1 + ?u) ^ n * (1 - ?u) ^ n"
    using pow_lower [OF assms] d by (intro mult_left_mono)
  with p have "(1 + ?u) ^ n * (999999 / 1000000) \<le> 1" by simp
  then show ?thesis by simp
qed

section \<open>Values of binary64 rounding\<close>

lemma b64_0: "b64 0 = Fin 0"
  by (simp add: b64_def)

lemma b64_1_100: "b64 (1 / 100) = Fin (5764607523034235 / 576460752303423488)"
  by (rule b64_cert [where e = "-7" and m = 5764607523034235]) (simp_all add: round_half_even_def)

lemma b64_5764607523034235_576460752303423488: "b64 (5764607523034235 / 576460752303423488) = Fin (5764607523034235 / 576460752303423488)"
  by (rule b64_cert [where e = "-7" and m = 5764607523034235]) (simp_all add: round_half_even_def)

lemma b64_5951957267532847_576460752303423488: "b64 (5951957267532847 / 576460752303423488) = Fin (5951957267532847 / 576460752303423488)"
  by (rule b64_cert [where e = "-7" and m = 5951957267532847]) (simp_all add: round_half_even_def)

lemma b64_6052837899185947_576460752303423488: "b64 (6052837899185947 / 576460752303423488) = Fin (6052837899185947 / 576460752303423488)"
  by (rule b64_cert [where e = "-7" and m = 6052837899185947]) (simp_all add: round_half_even_def)

lemma b64_5764607523034235_288230376151711744: "b64 (5764607523034235 / 288230376151711744) = Fin (5764607523034235 / 288230376151711744)"
  by (rule b64_cert [where e = "-6" and m = 5764607523034235]) (simp_all add: round_half_even_def)

lemma b64_1_25: "b64 (1 / 25) = Fin (5764607523034235 / 144115188075855872)"
  by (rule b64_cert [where e = "-5" and m = 5764607523034235]) (simp_all add: round_half_even_def)

lemma b64_5951957267532847_144115188075855872: "b64 (5951957267532847 / 144115188075855872) = Fin (5951957267532847 / 144115188075855872)"
  by (rule b64_cert [where e = "-5" and m = 5951957267532847]) (simp_all add: round_half_even_def)

lemma b64_4649966615260037_112589990684262400: "b64 (4649966615260037 / 112589990684262400) = Fin (5951957267532847 / 144115188075855872)"
  by (rule b64_cert [where e = "-5" and m = 5951957267532847]) (simp_all add: round_half_even_def)

lemma b64_27259558507307846770160163383935_649037107316853453566312041152512: "b64 (27259558507307846770160163383935 / 649037107316853453566312041152512) = Fin (6052837899185947 / 144115188075855872)"
  by (rule b64_cert [where e = "-5" and m = 6052837899185947]) (simp_all add: round_half_even_def)

lemma b64_28823037615171175_576460752303423488: "b64 (28823037615171175 / 576460752303423488) = Fin (3602879701896397 / 72057594037927936)"
  by (rule b64_cert [where e = "-5" and m = 7205759403792794]) (simp_all add: round_half_even_def)

lemma b64_17293822569102705_288230376151711744: "b64 (17293822569102705 / 288230376151711744) = Fin (1080863910568919 / 18014398509481984)"
  by (rule b64_cert [where e = "-5" and m = 8646911284551352]) (simp_all add: round_half_even_def)

lemma b64_34587645138205411_576460752303423488: "b64 (34587645138205411 / 576460752303423488) = Fin (8646911284551353 / 144115188075855872)"
  by (rule b64_cert [where e = "-5" and m = 8646911284551353]) (simp_all add: round_half_even_def)

lemma b64_1_2: "b64 (1 / 2) = Fin (1 / 2)"
  by (rule b64_cert [where e = "-1" and m = 4503599627370496]) (simp_all add: round_half_even_def)

lemma b64_4728779608739021_9007199254740992: "b64 (4728779608739021 / 9007199254740992) = Fin (4728779608739021 / 9007199254740992)"
  by (rule b64_cert [where e = "-1" and m = 4728779608739021]) (simp_all add: round_half_even_def)

lemma b64_151320947479648675_288230376151711744: "b64 (151320947479648675 / 288230376151711744) = Fin (4728779608739021 / 9007199254740992)"
  by (rule b64_cert [where e = "-1" and m = 4728779608739021]) (simp_all add: round_half_even_def)

lemma b64_53_100: "b64 (53 / 100) = Fin (2386907802506363 / 4503599627370496)"
  by (rule b64_cert [where e = "-1" and m = 4773815605012726]) (simp_all add: round_half_even_def)

lemma b64_1_1: "b64 (1) = Fin (1)"
  by (rule b64_cert [where e = "0" and m = 4503599627370496]) (simp_all add: round_half_even_def)

lemma b64_148798931688321175_144115188075855872: "b64 (148798931688321175 / 144115188075855872) = Fin (4649966615260037 / 4503599627370496)"
  by (rule b64_cert [where e = "0" and m = 4649966615260037]) (simp_all add: round_half_even_def)

lemma b64_21_20: "b64 (21 / 20) = Fin (4728779608739021 / 4503599627370496)"
  by (rule b64_cert [where e = "0" and m = 4728779608739021]) (simp_all add: round_half_even_def)

lemma b64_413_100: "b64 (413 / 100) = Fin (4649966615260037 / 1125899906842624)"
  by (rule b64_cert [where e = "2" and m = 4649966615260037]) (simp_all add: round_half_even_def)

lemma b64_5_1: "b64 (5) = Fin (5)"
  by (rule b64_cert [where e = "2" and m = 5629499534213120]) (simp_all add: round_half_even_def)

lemma b64_10_1: "b64 (10) = Fin (10)"
  by (rule b64_cert [where e = "3" and m = 5629499534213120]) (simp_all add: round_half_even_def)

lemma b64_21_2: "b64 (21 / 2) = Fin (21 / 2)"
  by (rule b64_cert [where e = "3" and m = 5910974510923776]) (simp_all add: round_half_even_def)

lemma b64_61_4: "b64 (61 / 4) = Fin (61 / 4)"
  by (rule b64_cert [where e = "3" and m = 8584986789675008]) (simp_all add: round_half_even_def)

lemma b64_101_4: "b64 (101 / 4) = Fin (101 / 4)"
  by (rule b64_cert [where e = "4" and m = 7107243161944064]) (simp_all add: round_half_even_def)

lemma b64_105_2: "b64 (105 / 2) = Fin (105 / 2)"
  by (rule b64_cert [where e = "5" and m = 7388718138654720]) (simp_all add: round_half_even_def)

lemmas b64_values = b64_0 b64_1_100 b64_5764607523034235_576460752303423488 b64_5951957267532847_576460752303423488 b64_6052837899185947_576460752303423488 b64_5764607523034235_288230376151711744 b64_1_25 b64_5951957267532847_144115188075855872 b64_4649966615260037_112589990684262400 b64_27259558507307846770160163383935_649037107316853453566312041152512 b64_28823037615171175_576460752303423488 b64_17293822569102705_288230376151711744 b64_34587645138205411_576460752303423488 b64_1_2 b64_4728779608739021_9007199254740992 b64_151320947479648675_288230376151711744 b64_53_100 b64_1_1 b64_148798931688321175_144115188075855872 b64_21_20 b64_413_100 b64_5_1 b64_10_1 b64_21_2 b64_61_4 b64_101_4 b64_105_2

section \<open>Evaluating the sample portfolios\<close>

lemma bp_yield: "yield bp_row = Fin (5951957267532847 / 144115188075855872)"
  by (simp add: bp_row_def b64_values)

lemma bp_amount:
  "amount bp_row [''Mar'', ''Jun'', ''Sep'', ''Dec''] = Fin (5951957267532847 / 576460752303423488)"
  by (simp add: amount_def quarterly_def last_annual_def bp_yield bp_row_def b64_values)

lemma bp_rounded:
  "round_amount bp_row (amount bp_row [''Mar'', ''Jun'', ''Sep'', ''Dec'']) = b64 (1 / 100)"
  by (simp add: round_amount_def bp_amount bp_yield np_round_def round_half_even_def b64_values)

lemma bp_schedule: "known_div_schedule (slice bp_row) = Some [''Mar'', ''Jun'', ''Sep'', ''Dec'']"
  by (simp add: known_div_schedule_def bp_row_def)

lemma window_2025: "add_timedelta today_2025 365 = Inr \<lparr>year = 2026, month = 11, day = 21\<rparr>"
  by (simp add: add_timedelta_def window_end_2025)

lemma bp_months:
  "month_event today_2025 bp_row [''Mar'', ''Jun'', ''Sep'', ''Dec''] ''Mar'' = Inr None"
  "month_event today_2025 bp_row [''Mar'', ''Jun'', ''Sep'', ''Dec''] ''Jun'' = Inr None"
  "month_event today_2025 bp_row [''Mar'', ''Jun'', ''Sep'', ''Dec''] ''Sep'' = Inr None"
  "month_event today_2025 bp_row [''Mar'', ''Jun'', ''Sep'', ''Dec''] ''Dec'' =
     Inr (Some \<lparr>ev_date = \<lparr>year = 2025, month = 12, day = 15\<rparr>, ev_ticker = ''BP'',
                ev_amount = b64 (1 / 100)\<rparr>)"
  by (simp_all add: month_event_def month_of_label_def resolve_year_def mk_datetime_def
      valid_date_def days_in_month_def date_le_def window_2025 bp_rounded)
    (simp_all add: today_2025_def bp_row_def)

lemma bp_events:
  "holding_events today_2025 bp_row =
     Inr [\<lparr>ev_date = \<lparr>year = 2025, month = 12, day = 15\<rparr>, ev_ticker = ''BP'',
           ev_amount = b64 (1 / 100)\<rparr>]"
  by (simp add: holding_events_def bp_schedule bp_months)

lemma tie_amount:
  "amount tie_row [''Mar'', ''Jun'', ''Sep'', ''Dec''] = Fin (4728779608739021 / 9007199254740992)"
  by (simp add: amount_def quarterly_def last_annual_def tie_row_def b64_values)

lemma tie_rounded:
  "py_round (Fin (4728779608739021 / 9007199254740992)) 2 = Fin (2386907802506363 / 4503599627370496)"
  by (simp add: round_half_even_def b64_values)

lemma tie_schedule: "known_div_schedule (slice tie_row) = Some [''Mar'', ''Jun'', ''Sep'', ''Dec'']"
  by (simp add: known_div_schedule_def tie_row_def)

lemma tie_yield: "yield tie_row = Fin 0"
  by (simp add: tie_row_def)

lemma tie_round_amount:
  "round_amount tie_row (amount tie_row [''Mar'', ''Jun'', ''Sep'', ''Dec'']) =
     Fin (2386907802506363 / 4503599627370496)"
  using tie_rounded by (simp add: round_amount_def tie_amount tie_yield)

lemma tie_months:
  "month_event today_2025 tie_row [''Mar'', ''Jun'', ''Sep'', ''Dec''] ''Mar'' = Inr None"
  "month_event today_2025 tie_row [''Mar'', ''Jun'', ''Sep'', ''Dec''] ''Jun'' = Inr None"
  "month_event today_2025 tie_row [''Mar'', ''Jun'', ''Sep'', ''Dec''] ''Sep'' = Inr None"
  "month_event today_2025 tie_row [''Mar'', ''Jun'', ''Sep'', ''Dec''] ''Dec'' =
     Inr (Some \<lparr>ev_date = \<lparr>year = 2025, month = 12, day = 15\<rparr>, ev_ticker = ''BP'',
                ev_amount = Fin (2386907802506363 / 4503599627370496)\<rparr>)"
  by (simp_all add: month_event_def month_of_label_def resolve_year_def mk_datetime_def
      valid_date_def days_in_month_def date_le_def window_2025 tie_round_amount)
    (simp_all add: today_2025_def tie_row_def)

lemma tie_events:
  "holding_events today_2025 tie_row =
     Inr [\<lparr>ev_date = \<lparr>year = 2025, month = 12, day = 15\<rparr>, ev_ticker = ''BP'',
           ev_amount = Fin (2386907802506363 / 4503599627370496)\<rparr>]"
  by (simp add: holding_events_def tie_schedule tie_months)

section \<open>Lemmas on monthly buckets\<close>

















section \<open>Lemmas on the fetch loop\<close>

lemma fetch_loop_ok:
  assumes "\<forall>(j, r) \<in> set df. j + 1 \<le> n"
  shows "fetch_loop quote_api fund_api n df = Inr (map (\<lambda>(j, r). fetch_row quote_api fund_api r) df)"
  using assms by (induction df) (auto simp: Let_def)

lemma fetch_loop_raises:
  assumes "(j, r) \<in> set df" "n < j + 1"
  shows "fetch_loop quote_api fund_api n df = Inl StreamlitAPIException"
  using assms by (induction df) (auto simp: Let_def split: sum.splits)

lemma total_first_raises:
  "drop_total [total_holding, ng_holding] = [(1, ng_holding)]"
  "fetch_all quote_api fund_api (drop_total [total_holding, ng_holding]) = Inl StreamlitAPIException"
  by (simp_all add: drop_total_def enumerate_eq_zip total_holding_def ng_holding_def fetch_all_def)

lemma drop_total_last:
  assumes "\<forall>r \<in> set xs. slice r \<noteq> ''Total''" and "\<forall>r \<in> set ts. slice r = ''Total''"
  shows "drop_total (xs @ ts) = enumerate 0 xs"
proof -
  have "filter (\<lambda>(i, r). slice r \<noteq> ''Total'') (enumerate 0 xs) = enumerate 0 xs"
    using assms(1) by (auto simp: filter_id_conv in_set_enumerate_eq)
  moreover have "filter (\<lambda>(i, r). slice r \<noteq> ''Total'') (enumerate (length xs) ts) = []"
    using assms(2) by (auto simp: filter_empty_conv in_set_enumerate_eq)
  ultimately show ?thesis by (simp add: drop_total_def enumerate_append_eq)
qed

lemma drop_total_last_labels:
  assumes "\<forall>r \<in> set xs. slice r \<noteq> ''Total''" and "\<forall>r \<in> set ts. slice r = ''Total''"
  shows "\<forall>(j, r) \<in> set (drop_total (xs @ ts)). j + 1 \<le> length (drop_total (xs @ ts))"
  unfolding drop_total_last [OF assms] by (auto simp: in_set_enumerate_eq)

lemma sentinel_market_value:
  assumes "get_live_price (quote_api (slice row @ ''.L'')) = (Fin 0, Fin 0)"
  shows "price (fetch_row quote_api fund_api row) = Fin 0"
    and "market_value (fetch_row quote_api fund_api row) =
           (case owned_quantity row of Fin q \<Rightarrow> Fin 0 | _ \<Rightarrow> NaN)"
  using assms
  by (auto simp: fetch_row_def market_value_def Let_def b64_def inf_of_sign_def split: fnum.splits)

section \<open>Lemmas on the events of a holding\<close>

lemma months_events_has:
  assumes "months_events today row months ms = Inr es" "m \<in> set ms"
      and "month_event today row months m = Inr (Some e)"
  shows "e \<in> set es"
  using assms
proof (induction ms arbitrary: es)
  case Nil
  then show ?case by simp
next
  case (Cons x xs)
  then show ?case by (auto split: sum.splits option.splits)
qed

section \<open>The claims\<close>

subsection \<open>C1: the events of a quarterly payer on 2025-11-21\<close>

text \<open>
  C1 says that on 2025-11-21 a holding that pays in March, June, September and December
  gets a December event on 2025-12-15 and a September event on 2026-09-15. The program
  gives the December event only: the year of September is raised twice, to 2027, the date
  2027-09-15 lies past the end of the window (2026-11-21), and no September event is
  appended.
\<close>

theorem september_resolves_to_2027:
  "holding_events today_2025 bp_row =
     Inr [\<lparr>ev_date = \<lparr>year = 2025, month = 12, day = 15\<rparr>, ev_ticker = ''BP'',
           ev_amount = b64 (1 / 100)\<rparr>] \<and>
   mk_datetime (resolve_year today_2025 9) 9 15 = Inr \<lparr>year = 2027, month = 9, day = 15\<rparr> \<and>
   add_timedelta today_2025 365 = Inr \<lparr>year = 2026, month = 11, day = 21\<rparr> \<and>
   month_event today_2025 bp_row [''Mar'', ''Jun'', ''Sep'', ''Dec''] ''Sep'' = Inr None"
proof -
  have d: "mk_datetime (resolve_year today_2025 9) 9 15 = Inr \<lparr>year = 2027, month = 9, day = 15\<rparr>"
    by (simp add: resolve_year_def mk_datetime_def valid_date_def days_in_month_def today_2025_def)
  from bp_events d window_2025 bp_months(3) show ?thesis by simp
qed

subsection \<open>C2: the year of a payment month\<close>

text \<open>
  C2: for a label of the schedule that resolves to \<open>month_num\<close>, the year of the event
  is this year when \<open>month_num\<close> is after the current month, next year when it is the
  current month, and the year after next when it is before the current month. An event the
  loop appends carries that year, the month and the day 15.
\<close>

theorem year_resolution:
  assumes "month_of_label m = Some month_num"
  shows "(month_num > month today \<longrightarrow> resolve_year today month_num = year today) \<and>
         (month_num = month today \<longrightarrow> resolve_year today month_num = year today + 1) \<and>
         (month_num < month today \<longrightarrow> resolve_year today month_num = year today + 2) \<and>
         (\<forall>e. month_event today row months m = Inr (Some e) \<longrightarrow>
            ev_date e = \<lparr>year = resolve_year today month_num, month = month_num, day = 15\<rparr>)"
proof (intro conjI impI allI)
  fix e
  assume "month_event today row months m = Inr (Some e)"
  from month_event_date [OF this] assms
  show "ev_date e = \<lparr>year = resolve_year today month_num, month = month_num, day = 15\<rparr>"
    by auto
qed (simp_all add: resolve_year_def)

theorem year_resolution_witness:
  "month_of_label ''Dec'' = Some 12 \<and> month_of_label ''Nov'' = Some 11 \<and> month_of_label ''Sep'' = Some 9 \<and>
   resolve_year today_2025 12 = 2025 \<and> resolve_year today_2025 11 = 2026 \<and>
   resolve_year today_2025 9 = 2027"
proof -
  have l: "month_of_label ''Dec'' = Some 12" "month_of_label ''Nov'' = Some 11" "month_of_label ''Sep'' = Some 9"
    by (simp_all add: month_of_label_def)
  have t: "month today_2025 = 11" "year today_2025 = 2025" by (simp_all add: today_2025_def)
  show ?thesis
    using year_resolution [OF l(1), of today_2025] year_resolution [OF l(2), of today_2025]
      year_resolution [OF l(3), of today_2025] l t
    by simp
qed

subsection \<open>C3: weights\<close>

text \<open>
  C3, as amended: whenever the total market value is a finite number above 0, every
  market value is a finite number that is not negative and there are at most \<open>10 ^ 9\<close>
  holdings, every weight is at least 0 and the sum of the weights lies between 0.999 and
  1.001. The sum is the binary64 sum: it need not be 1.
\<close>

theorem weights_of_numbers:
  assumes mv: "\<forall>r \<in> set df. \<exists>a. market_value r = Fin a \<and> 0 \<le> a"
      and tot: "total_now df = Fin t" and tpos: "0 < t"
      and len: "length df \<le> 10 ^ 9"
  shows "(\<forall>w \<in> set (weight df). fge w (Fin 0)) \<and>
         (\<exists>s. series_sum (weight df) = Fin s \<and> 999 / 1000 \<le> s \<and> s \<le> 1001 / 1000)"
proof -
  let ?u = unit_roundoff
  let ?n = "length df"
  define as where "as = map (\<lambda>r. fin_val (market_value r)) df"
  define S where "S = sum_list as"
  define ws where "ws = map (\<lambda>r. fin_val (fdiv (market_value r) (Fin t))) df"
  define W where "W = sum_list ws"
  have n: "length as = ?n" "length ws = ?n" by (simp_all add: as_def ws_def)
  have u: "0 \<le> ?u" "?u \<le> 1 / 10 ^ 15" by (rule unit_roundoff_bounds)+
  have c: "999999 / 1000000 \<le> (1 - ?u) ^ ?n" using len by (rule pow_lower)
  have d: "(1 + ?u) ^ ?n \<le> 500001 / 500000" using len by (rule pow_upper)
  have d1: "1 \<le> (1 + ?u) ^ ?n" using u by (intro one_le_power) simp
  have ntiny: "real ?n * tiny \<le> 1 / 10 ^ 6"
  proof -
    have "real ?n \<le> 10 ^ 9" using len by (metis of_nat_le_iff of_nat_numeral of_nat_power)
    then have "real ?n * tiny \<le> 10 ^ 9 * (1 / 10 ^ 15)"
      using tiny_small tiny_nonneg by (intro mult_mono) simp_all
    then show ?thesis by simp
  qed
  have mvs: "map market_value df = map Fin as"
    unfolding as_def using mv by (auto simp: map_eq_conv)
  have nn: "\<forall>a \<in> set as. 0 \<le> a \<and> on_grid a"
  proof
    fix a assume "a \<in> set as"
    then obtain r where r: "r \<in> set df" "a = fin_val (market_value r)" unfolding as_def by auto
    from mv r(1) obtain b where b: "market_value r = Fin b" "0 \<le> b" by blast
    then have "fmul (price r) (owned_quantity r) = Fin b" by (simp add: market_value_def)
    then have "on_grid b" by (rule fmul_Fin_grid)
    with b r(2) show "0 \<le> a \<and> on_grid a" by simp
  qed
  have S0: "0 \<le> S" unfolding S_def using nn by (intro sum_list_nonneg') simp
  have total: "series_sum (map market_value df) = fold fadd (map Fin as) (Fin 0)"
    unfolding mvs series_sum_def by (simp add: is_nan_def filter_id_conv)
  with tot have fold_t: "fold fadd (map Fin as) (Fin 0) = Fin t" by (simp add: total_now_def)
  from fold_fadd_bounds [OF nn] fold_t
  have tb: "(1 - ?u) ^ ?n * S \<le> t" "t \<le> (1 + ?u) ^ ?n * S"
    by (simp_all add: sum_ok_def n S_def)
  have Spos: "0 < S"
  proof (rule ccontr)
    assume "\<not> 0 < S"
    with S0 have "S = 0" by simp
    with tb(2) tpos show False by simp
  qed
  define rho where "rho = S / t"
  have rho_hi: "rho \<le> 500001 / 500000"
  proof -
    have "999999 / 1000000 * S \<le> (1 - ?u) ^ ?n * S" using c S0 by (intro mult_right_mono)
    with tb(1) have "999999 / 1000000 * S \<le> t" by simp
    then have "S \<le> 500001 / 500000 * t" using S0 tpos by simp
    then show ?thesis unfolding rho_def using tpos by (simp add: field_simps)
  qed
  have rho_lo: "999998 / 1000000 \<le> rho"
  proof -
    have "(1 + ?u) ^ ?n * S \<le> 500001 / 500000 * S" using d S0 by (intro mult_right_mono)
    with tb(2) have "t \<le> 500001 / 500000 * S" by simp
    then have "999998 / 1000000 * t \<le> S" using S0 tpos by simp
    then show ?thesis unfolding rho_def using tpos by (simp add: field_simps)
  qed
  have rho0: "0 \<le> rho" using rho_lo by simp
  have each: "\<exists>w. fdiv (market_value r) (Fin t) = Fin w \<and> 0 \<le> w \<and> on_grid w \<and>
      (1 - ?u) * (fin_val (market_value r) / t) - tiny \<le> w \<and>
      w \<le> (1 + ?u) * (fin_val (market_value r) / t) + tiny" if r: "r \<in> set df" for r
  proof -
    from mv r obtain a where a: "market_value r = Fin a" "0 \<le> a" by blast
    have "a \<in> set as" unfolding as_def using r a by force
    then have "a \<le> S" unfolding S_def using nn by (intro member_le_sum_list_real) simp_all
    then have "a / t \<le> rho" unfolding rho_def using tpos by (simp add: divide_right_mono)
    with rho_hi have "a / t \<le> 2 powi 1" by simp
    also have "(2::real) powi 1 < 2 powi 1023" by (intro power_int_strict_increasing) simp_all
    finally have "a / t < 2 powi 1023" .
    from div_bound [OF a(2) tpos this] show ?thesis by (simp add: a(1))
  qed
  have wdf: "weight df = map Fin ws"
  proof -
    have "weight df = map (\<lambda>r. fdiv (market_value r) (Fin t)) df"
      using tot by (simp add: weight_def total_now_def)
    also have "\<dots> = map Fin ws"
      unfolding ws_def map_map comp_def
    proof (rule map_cong [OF refl])
      fix r assume "r \<in> set df"
      from each [OF this] obtain w where "fdiv (market_value r) (Fin t) = Fin w" by blast
      then show "fdiv (market_value r) (Fin t) = Fin (fin_val (fdiv (market_value r) (Fin t)))"
        by simp
    qed
    finally show ?thesis .
  qed
  have wn: "\<forall>w \<in> set ws. 0 \<le> w \<and> on_grid w"
  proof
    fix w assume "w \<in> set ws"
    then obtain r where r: "r \<in> set df" "w = fin_val (fdiv (market_value r) (Fin t))"
      unfolding ws_def by auto
    from each [OF r(1)] r(2) show "0 \<le> w \<and> on_grid w" by auto
  qed
  have W_hi: "W \<le> (1 + ?u) * rho + real ?n * tiny"
  proof -
    have "W \<le> sum_list (map (\<lambda>r. (1 + ?u) * (fin_val (market_value r) / t) + tiny) df)"
      unfolding W_def ws_def map_map comp_def
    proof (rule sum_list_mono)
      fix r assume "r \<in> set df"
      from each [OF this]
      show "fin_val (fdiv (market_value r) (Fin t)) \<le> (1 + ?u) * (fin_val (market_value r) / t) + tiny"
        by auto
    qed
    also have "\<dots> = (1 + ?u) * (sum_list (map (\<lambda>r. fin_val (market_value r)) df) / t) + real ?n * tiny"
      by (rule sum_list_affine)
    finally show ?thesis by (simp add: rho_def S_def as_def)
  qed
  have W_lo: "(1 - ?u) * rho - real ?n * tiny \<le> W"
  proof -
    have "sum_list (map (\<lambda>r. (1 - ?u) * (fin_val (market_value r) / t) - tiny) df) \<le> W"
      unfolding W_def ws_def map_map comp_def
    proof (rule sum_list_mono)
      fix r assume "r \<in> set df"
      from each [OF this]
      show "(1 - ?u) * (fin_val (market_value r) / t) - tiny \<le> fin_val (fdiv (market_value r) (Fin t))"
        by auto
    qed
    moreover have "sum_list (map (\<lambda>r. (1 - ?u) * (fin_val (market_value r) / t) - tiny) df) =
        (1 - ?u) * (sum_list (map (\<lambda>r. fin_val (market_value r)) df) / t) - real ?n * tiny"
      by (rule sum_list_affine')
    ultimately show ?thesis by (simp add: rho_def S_def as_def)
  qed
  have W1: "W \<le> 100001 / 100000"
  proof -
    have "(1 + ?u) * rho \<le> (1 + 1 / 10 ^ 15) * (500001 / 500000)"
      using u rho_hi rho0 by (intro mult_mono) simp_all
    with W_hi ntiny show ?thesis by simp
  qed
  have W2: "999996 / 1000000 \<le> W"
  proof -
    have "(1 - 1 / 10 ^ 15) * (999998 / 1000000) \<le> (1 - ?u) * rho"
      using u rho_lo by (intro mult_mono) simp_all
    with W_lo ntiny show ?thesis by simp
  qed
  have W0: "0 \<le> W" using W2 by simp
  have sw: "series_sum (weight df) = fold fadd (map Fin ws) (Fin 0)"
    unfolding wdf series_sum_def by (simp add: is_nan_def filter_id_conv)
  from fold_fadd_bounds [OF wn]
  have ok: "sum_ok ws (fold fadd (map Fin ws) (Fin 0))" .
  have dW: "(1 + ?u) ^ ?n * W \<le> 500001 / 500000 * (100001 / 100000)"
    using d W1 W0 by (intro mult_mono) simp_all
  have "\<exists>s. fold fadd (map Fin ws) (Fin 0) = Fin s \<and> (1 - ?u) ^ ?n * W \<le> s \<and> s \<le> (1 + ?u) ^ ?n * W"
  proof (cases "fold fadd (map Fin ws) (Fin 0)")
    case (Fin s)
    with ok show ?thesis by (simp add: sum_ok_def n W_def)
  next
    case PInf
    with ok have "2 powi 1023 \<le> (1 + ?u) ^ ?n * W" by (simp add: sum_ok_def n W_def)
    with dW have big: "(2::real) powi 1023 \<le> 2 powi 1" by simp
    have "(2::real) powi 1 < 2 powi 1023" by (intro power_int_strict_increasing) simp_all
    from this big have "(2::real) powi 1 < 2 powi 1" by (rule less_le_trans)
    then have False by (simp only: less_irrefl)
    then show ?thesis by (rule FalseE)
  next
    case NInf
    with ok show ?thesis by (simp add: sum_ok_def)
  next
    case NaN
    with ok show ?thesis by (simp add: sum_ok_def)
  qed
  then obtain s where s: "fold fadd (map Fin ws) (Fin 0) = Fin s"
    "(1 - ?u) ^ ?n * W \<le> s" "s \<le> (1 + ?u) ^ ?n * W" by blast
  have "999999 / 1000000 * (999996 / 1000000) \<le> (1 - ?u) ^ ?n * W"
    using c W2 by (intro mult_mono) simp_all
  with s(2) have lo: "999 / 1000 \<le> s" by simp
  from s(3) dW have hi: "s \<le> 1001 / 1000" by simp
  have nonneg: "\<forall>w \<in> set (weight df). fge w (Fin 0)"
    unfolding wdf using wn by auto
  from nonneg sw s(1) lo hi show ?thesis by simp
qed

theorem weights_of_numbers_witness:
  "market_value five_row = Fin 5 \<and>
   total_now [five_row, five_row] = Fin 10 \<and>
   weight [five_row, five_row] = [Fin (1 / 2), Fin (1 / 2)] \<and>
   (\<exists>s. series_sum (weight [five_row, five_row]) = Fin s \<and> 999 / 1000 \<le> s \<and> s \<le> 1001 / 1000)"
proof -
  have mv: "market_value five_row = Fin 5"
    by (simp add: market_value_def five_row_def b64_values)
  have a: "\<forall>r \<in> set [five_row, five_row]. \<exists>a. market_value r = Fin a \<and> 0 \<le> a" by (simp add: mv)
  have t: "total_now [five_row, five_row] = Fin 10"
    by (simp add: total_now_def series_sum_def is_nan_def mv b64_values)
  have w: "weight [five_row, five_row] = [Fin (1 / 2), Fin (1 / 2)]"
    using t by (simp add: weight_def total_now_def mv b64_values)
  have l: "length [five_row, five_row] \<le> 10 ^ 9" by simp
  from weights_of_numbers [OF a t _ l] mv t w show ?thesis by simp
qed

text \<open>
  C3 as stated fails: a holding whose quantity could not be parsed has a market value and
  a weight that are not-a-number, while the total of the other holdings is positive.
\<close>

theorem weight_missing_quantity:
  "fgt (total_now [missing_row, five_row]) (Fin 0) \<and>
   weight [missing_row, five_row] = [NaN, Fin 1] \<and> \<not> fge NaN (Fin 0)"
  by (simp add: total_now_def weight_def series_sum_def is_nan_def market_value_def
      missing_row_def five_row_def b64_values)

subsection \<open>C4: forward yield\<close>

text \<open>
  C4 says that the forward yield is the yield-weighted sum of the market values over the
  total, and 0 when the total is 0. The program divides in both cases: with a total of 0
  (every quote unavailable) the result is not-a-number.
\<close>

theorem forward_yield_zero_total:
  "total_now [unavailable_row] = Fin 0 \<and> forward_yield [unavailable_row] = NaN"
  by (simp add: forward_yield_def total_now_def series_sum_def series_dot_def is_nan_def
      market_value_def unavailable_row_def inf_of_sign_def b64_0)

subsection \<open>C5: expected dividends of the next twelve months\<close>

text \<open>
  C5 says that the expected income is the single number obtained by summing market value
  times mean yield over the holdings. The program never sums: whenever the total market
  value is positive it formats the whole column, which raises \<open>TypeError\<close>.
\<close>

theorem expected_divs_raises:
  assumes "fgt (total_now df) (Fin 0)"
  shows "expected_divs df = Inl TypeError"
  using assms by (simp add: expected_divs_def format_pounds_def)

theorem expected_divs_raises_witness:
  "fgt (total_now [five_row]) (Fin 0) \<and> expected_divs [five_row] = Inl TypeError"
proof -
  have t: "fgt (total_now [five_row]) (Fin 0)"
    by (simp add: total_now_def series_sum_def is_nan_def market_value_def five_row_def b64_values)
  from expected_divs_raises [OF t] t show ?thesis by simp
qed

subsection \<open>C6: tickers absent from the schedule\<close>

text \<open>
  C6 says that a holding whose ticker is absent from the schedule is treated as a quarterly
  payer and gets quarterly events. The program appends no event for such a holding,
  whatever the reference date.
\<close>

theorem absent_ticker_no_events:
  assumes "known_div_schedule (slice row) = None"
  shows "holding_events today row = Inr []"
  using assms by (simp add: holding_events_def)

theorem absent_ticker_no_events_witness:
  "known_div_schedule (slice vod_row) = None \<and> holding_events today_2025 vod_row = Inr []"
proof -
  have a: "known_div_schedule (slice vod_row) = None"
    by (simp add: known_div_schedule_def vod_row_def)
  from absent_ticker_no_events [OF a, of today_2025] a show ?thesis by simp
qed

subsection \<open>C7: the amount of an event\<close>

text \<open>
  C7, as amended: for every holding whose ticker is in the schedule and every scheduled
  month whose pay date falls within the window, an event is appended whose amount is the
  product of last price, yield (0.04 when the yield is not positive), a quarter, the
  shares and 4 over the number of scheduled months, each operation in binary64, rounded
  to two decimals (by numpy when the yield is positive, by Python otherwise); and every
  event of the holding has that amount. The loop over the months of the holding returns
  for every reference date up to the year 9997.
\<close>

theorem event_amount_rounded:
  assumes "known_div_schedule (slice row) = Some months" and "m \<in> set months"
      and "month_of_label m = Some k"
      and "mk_datetime (resolve_year today k) k 15 = Inr pay_date"
      and "date_le today pay_date"
      and "add_timedelta today 365 = Inr window_end" and "date_le pay_date window_end"
      and "x = fmul (fmul (fdiv (fmul (price row)
                                    (if fgt (yield row) (Fin 0) then yield row else b64 (4 / 100)))
                                 (Fin 4))
                           (owned_quantity row))
                     (fdiv (Fin 4) (Fin (real (length months))))"
      and "rounded = (if fgt (yield row) (Fin 0) then np_round x 2 else py_round x 2)"
  shows "month_event today row months m =
           Inr (Some \<lparr>ev_date = pay_date, ev_ticker = slice row, ev_amount = rounded\<rparr>) \<and>
         (\<forall>es. holding_events today row = Inr es \<longrightarrow>
            \<lparr>ev_date = pay_date, ev_ticker = slice row, ev_amount = rounded\<rparr> \<in> set es \<and>
            (\<forall>e \<in> set es. ev_amount e = rounded)) \<and>
         (valid_date today \<and> year today \<le> 9997 \<longrightarrow> (\<exists>es. holding_events today row = Inr es))"
proof (intro conjI allI impI)
  have r: "round_amount row (amount row months) = rounded"
    by (simp add: assms(8,9) round_amount_def amount_def quarterly_def last_annual_def)
  show me: "month_event today row months m =
      Inr (Some \<lparr>ev_date = pay_date, ev_ticker = slice row, ev_amount = rounded\<rparr>)"
    by (simp add: month_event_def assms(3-7) r)
  fix es assume h: "holding_events today row = Inr es"
  from assms(2) have ne: "months \<noteq> []" by auto
  with h assms(1) have ms: "months_events today row months months = Inr es"
    by (simp add: holding_events_def)
  from months_events_has [OF ms assms(2) me]
  show "\<lparr>ev_date = pay_date, ev_ticker = slice row, ev_amount = rounded\<rparr> \<in> set es" .
  show "\<forall>e \<in> set es. ev_amount e = rounded"
  proof
    fix e assume "e \<in> set es"
    from holding_events_mem [OF h this] assms(1) obtain m' where
      "month_event today row months m' = Inr (Some e)" by auto
    from month_event_date [OF this] r show "ev_amount e = rounded" by auto
  qed
next
  assume "valid_date today \<and> year today \<le> 9997"
  then show "\<exists>es. holding_events today row = Inr es"
    using holding_events_returns [of today row] by simp
qed

text \<open>
  Evaluated on 50 shares at 1.05 without a yield: the product is the binary64 number
  nearest to 0.525, which lies above it, and the event holds 0.53.
\<close>

theorem event_amount_rounded_witness:
  "known_div_schedule (slice tie_row) = Some [''Mar'', ''Jun'', ''Sep'', ''Dec''] \<and>
   mk_datetime (resolve_year today_2025 12) 12 15 = Inr \<lparr>year = 2025, month = 12, day = 15\<rparr> \<and>
   add_timedelta today_2025 365 = Inr \<lparr>year = 2026, month = 11, day = 21\<rparr> \<and>
   amount tie_row [''Mar'', ''Jun'', ''Sep'', ''Dec''] = Fin (4728779608739021 / 9007199254740992) \<and>
   month_event today_2025 tie_row [''Mar'', ''Jun'', ''Sep'', ''Dec''] ''Dec'' =
     Inr (Some \<lparr>ev_date = \<lparr>year = 2025, month = 12, day = 15\<rparr>, ev_ticker = ''BP'',
                ev_amount = Fin (2386907802506363 / 4503599627370496)\<rparr>) \<and>
   holding_events today_2025 tie_row =
     Inr [\<lparr>ev_date = \<lparr>year = 2025, month = 12, day = 15\<rparr>, ev_ticker = ''BP'',
           ev_amount = Fin (2386907802506363 / 4503599627370496)\<rparr>] \<and>
   b64 (53 / 100) = Fin (2386907802506363 / 4503599627370496)"
proof -
  let ?months = "[''Mar'', ''Jun'', ''Sep'', ''Dec'']"
  let ?pay = "\<lparr>year = 2025, month = 12, day = 15\<rparr>"
  let ?end = "\<lparr>year = 2026, month = 11, day = 21\<rparr>"
  let ?x = "Fin (4728779608739021 / 9007199254740992)"
  let ?r = "Fin (2386907802506363 / 4503599627370496)"
  have l: "month_of_label ''Dec'' = Some 12" by (simp add: month_of_label_def)
  have p: "mk_datetime (resolve_year today_2025 12) 12 15 = Inr ?pay"
    by (simp add: resolve_year_def mk_datetime_def valid_date_def days_in_month_def today_2025_def)
  have w1: "date_le today_2025 ?pay" by (simp add: date_le_def today_2025_def)
  have w2: "date_le ?pay ?end" by (simp add: date_le_def)
  have y: "\<not> fgt (yield tie_row) (Fin 0)" by (simp add: tie_row_def)
  have t: "slice tie_row = ''BP''" by (simp add: tie_row_def)
  have x: "?x =
      fmul (fmul (fdiv (fmul (price tie_row)
                          (if fgt (yield tie_row) (Fin 0) then yield tie_row else b64 (4 / 100)))
                       (Fin 4))
                 (owned_quantity tie_row))
           (fdiv (Fin 4) (Fin (real (length ?months))))"
    using tie_amount by (simp add: amount_def quarterly_def last_annual_def)
  have r: "?r = (if fgt (yield tie_row) (Fin 0) then np_round ?x 2 else py_round ?x 2)"
    using y tie_rounded by simp
  have c: "b64 (53 / 100) = ?r" by (simp add: b64_values)
  from event_amount_rounded [OF tie_schedule _ l p w1 window_2025 w2 x r] tie_schedule p
    window_2025 tie_amount tie_events t c
  show ?thesis by simp
qed

text \<open>
  C7 as stated fails: for one share at price 1 and yield 4.13 percent the product is
  0.010324999999999999 and the event holds 0.01.
\<close>

theorem amount_not_rounded_counterexample:
  "known_div_schedule (slice bp_row) = Some [''Mar'', ''Jun'', ''Sep'', ''Dec''] \<and>
   holding_events today_2025 bp_row =
     Inr [\<lparr>ev_date = \<lparr>year = 2025, month = 12, day = 15\<rparr>, ev_ticker = ''BP'',
           ev_amount = Fin (5764607523034235 / 576460752303423488)\<rparr>] \<and>
   fmul (fmul (fdiv (fmul (price bp_row) (if fgt (yield bp_row) (Fin 0) then yield bp_row else b64 (4 / 100)))
                    (Fin 4))
              (owned_quantity bp_row))
        (fdiv (Fin 4) (Fin (real (length [''Mar'', ''Jun'', ''Sep'', ''Dec''])))) =
     Fin (5951957267532847 / 576460752303423488) \<and>
   Fin (5764607523034235 / 576460752303423488) \<noteq> Fin (5951957267532847 / 576460752303423488)"
proof -
  have c: "fmul (fmul (fdiv (fmul (price bp_row) (if fgt (yield bp_row) (Fin 0) then yield bp_row else b64 (4 / 100)))
                    (Fin 4))
              (owned_quantity bp_row))
        (fdiv (Fin 4) (Fin (real (length [''Mar'', ''Jun'', ''Sep'', ''Dec''])))) =
     Fin (5951957267532847 / 576460752303423488)"
    using bp_amount by (simp add: amount_def quarterly_def last_annual_def)
  from bp_schedule bp_events c show ?thesis by (simp add: b64_values)
qed

subsection \<open>C8: an unavailable quote\<close>

text \<open>
  C8, as amended: when the quote of a holding is the sentinel (price 0, previous close 0)
  and the index label of every row is below the number of rows (as it is when the CSV has
  its Total rows last, or none: lemma \<open>drop_total_last_labels\<close>), the price of the
  holding is 0, its market value is 0 when its quantity is a finite number and
  not-a-number otherwise, nothing is raised, and every holding is fetched and enriched, in
  the order of the rows. With a Total row before a holding the progress bar raises
  (lemma \<open>total_first_raises\<close>).
\<close>

theorem unavailable_quote_tolerated:
  assumes "get_live_price (quote_api (slice row @ ''.L'')) = (Fin 0, Fin 0)"
      and "\<forall>(j, r) \<in> set df. j + 1 \<le> length df"
      and "(i, row) \<in> set df"
  shows "price (fetch_row quote_api fund_api row) = Fin 0 \<and>
         market_value (fetch_row quote_api fund_api row) =
           (case owned_quantity row of Fin q \<Rightarrow> Fin 0 | _ \<Rightarrow> NaN) \<and>
         fetch_all quote_api fund_api df =
           Inr (map (\<lambda>(j, r). fetch_row quote_api fund_api r) df) \<and>
         fetch_row quote_api fund_api row \<in> set (map (\<lambda>(j, r). fetch_row quote_api fund_api r) df)"
proof -
  from assms(3) have "fetch_row quote_api fund_api row \<in> set (map (\<lambda>(j, r). fetch_row quote_api fund_api r) df)"
    by force
  with sentinel_market_value [where quote_api = quote_api and row = row and fund_api = fund_api,
      OF assms(1)]
    fetch_loop_ok [where quote_api = quote_api and fund_api = fund_api, OF assms(2)]
  show ?thesis by (simp add: fetch_all_def)
qed

theorem unavailable_quote_tolerated_witness:
  "drop_total [av_holding, ng_holding, total_holding] = [(0, av_holding), (1, ng_holding)] \<and>
   get_live_price (quotes_down (slice av_holding @ ''.L'')) = (Fin 0, Fin 0) \<and>
   owned_quantity av_holding = Fin 3 \<and>
   market_value (fetch_row quotes_down no_fundamentals av_holding) = Fin 0 \<and>
   (\<exists>out. fetch_all quotes_down no_fundamentals [(0, av_holding), (1, ng_holding)] = Inr out \<and>
      map market_value out = [Fin 0, Fin (105 / 2)])"
proof -
  have a: "get_live_price (quotes_down (slice av_holding @ ''.L'')) = (Fin 0, Fin 0)"
    by (simp add: quotes_down_def av_holding_def get_live_price_def)
  have q: "owned_quantity av_holding = Fin 3" by (simp add: av_holding_def)
  have b: "\<forall>(j, r) \<in> set [(0, av_holding), (1, ng_holding)]. j + 1 \<le> length [(0::nat, av_holding), (1, ng_holding)]"
    by simp
  have m: "(0, av_holding) \<in> set [(0, av_holding), (1, ng_holding)]" by simp
  have n: "market_value (fetch_row quotes_down no_fundamentals ng_holding) = Fin (105 / 2)"
    by (simp add: fetch_row_def quotes_down_def ng_holding_def get_live_price_def
        market_value_def no_fundamentals_def get_yield_pct_def round_half_even_def b64_values)
  have d: "drop_total [av_holding, ng_holding, total_holding] = [(0, av_holding), (1, ng_holding)]"
    by (simp add: drop_total_def enumerate_eq_zip total_holding_def ng_holding_def av_holding_def)
  from unavailable_quote_tolerated [where quote_api = quotes_down and row = av_holding
      and fund_api = no_fundamentals and df = "[(0, av_holding), (1, ng_holding)]" and i = 0,
      OF a b m] a q n d
  show ?thesis by simp
qed

text \<open>
  C8 as stated fails: with the sentinel quote and a quantity that could not be parsed the
  market value is not-a-number, not 0, though the loop runs to its end.
\<close>

theorem unavailable_quote_missing_quantity:
  "get_live_price (quotes_down (slice unparsed_holding @ ''.L'')) = (Fin 0, Fin 0) \<and>
   fetch_all quotes_down no_fundamentals [(0, unparsed_holding)] =
     Inr [fetch_row quotes_down no_fundamentals unparsed_holding] \<and>
   market_value (fetch_row quotes_down no_fundamentals unparsed_holding) = NaN \<and>
   NaN \<noteq> Fin 0"
  by (simp add: quotes_down_def unparsed_holding_def get_live_price_def fetch_row_def
      market_value_def no_fundamentals_def get_yield_pct_def fetch_all_def Let_def)

subsection \<open>C9: monthly buckets\<close>




subsection \<open>C10: months before the current month\<close>

text \<open>
  C10: for every reference date and every holding, a scheduled month whose number is below
  the current month never yields an event: its year is raised twice, so that its date lies
  after the day 365 days from the reference date. Every event of the forecast therefore
  has a month that is not before the current month.
\<close>

theorem past_months_never_pay:
  assumes "valid_date today"
  shows "(month_of_label m = Some k \<and> k < month today \<longrightarrow>
            resolve_year today k = year today + 2 \<and>
            \<not> date_le \<lparr>year = year today + 2, month = k, day = 15\<rparr> (add_days 365 today) \<and>
            (\<forall>e. month_event today row months m \<noteq> Inr (Some e))) \<and>
         (future_divs today df = Inr es \<longrightarrow> (\<forall>e \<in> set es. month today \<le> month (ev_date e)))"
proof (intro conjI impI ballI)
  assume a: "month_of_label m = Some k \<and> k < month today"
  then show "resolve_year today k = year today + 2" by (simp add: resolve_year_cases)
  show "\<not> date_le \<lparr>year = year today + 2, month = k, day = 15\<rparr> (add_days 365 today)"
    using assms by (rule past_month_beyond_window)
  show "\<forall>e. month_event today row months m \<noteq> Inr (Some e)"
    using month_event_past [OF assms, of m k row months] a by simp
next
  fix e
  assume fd: "future_divs today df = Inr es" and mem: "e \<in> set es"
  from future_divs_mem [OF fd mem] obtain r hs where
    hs: "holding_events today r = Inr hs" "e \<in> set hs" by blast
  from holding_events_mem [OF hs] obtain ms m where
    me: "month_event today r ms m = Inr (Some e)" by blast
  from month_event_date [OF me] obtain k where
    k: "month_of_label m = Some k" "ev_date e = \<lparr>year = resolve_year today k, month = k, day = 15\<rparr>"
    by blast
  show "month today \<le> month (ev_date e)"
  proof (rule ccontr)
    assume "\<not> month today \<le> month (ev_date e)"
    with k have "k < month today" by simp
    from month_event_past [OF assms k(1) this, of r ms] me show False
      by (simp split: if_splits)
  qed
qed

theorem past_months_never_pay_witness:
  "valid_date today_2025 \<and> month_of_label ''Sep'' = Some 9 \<and> 9 < month today_2025 \<and>
   resolve_year today_2025 9 = 2027 \<and>
   (\<forall>row months e. month_event today_2025 row months ''Sep'' \<noteq> Inr (Some e)) \<and>
   future_divs today_2025 [bp_row] =
     Inr [\<lparr>ev_date = \<lparr>year = 2025, month = 12, day = 15\<rparr>, ev_ticker = ''BP'', ev_amount = b64 (1 / 100)\<rparr>]"
proof -
  have l: "month_of_label ''Sep'' = Some 9" by (simp add: month_of_label_def)
  have m: "9 < month today_2025" by (simp add: today_2025_def)
  have f: "future_divs today_2025 [bp_row] =
     Inr [\<lparr>ev_date = \<lparr>year = 2025, month = 12, day = 15\<rparr>, ev_ticker = ''BP'', ev_amount = b64 (1 / 100)\<rparr>]"
    by (simp add: bp_events)
  have y: "year today_2025 + 2 = 2027" by (simp add: today_2025_def)
  show ?thesis
    using past_months_never_pay [OF valid_today_2025, of "''Sep''" 9] l m f y valid_today_2025
    by simp
qed

end
